theory Spec2Isabelle
  imports Complex_Main
begin

section \<open>Data model\<close>

text \<open>
  The program (\<^verbatim>\<open>app.py\<close>) works on a pandas DataFrame. A cell is either missing
  (\<^verbatim>\<open>pd.notna(val)\<close> is false) or a value, of which the program only ever uses
  \<^verbatim>\<open>str(val)\<close>: \<open>Val s\<close> is a present value whose \<^verbatim>\<open>str\<close> is \<open>s\<close>. A row is the list
  of its cells in column order, a DataFrame the list of its rows; the row index is
  the default \<^verbatim>\<open>RangeIndex\<close> that \<^verbatim>\<open>pd.read_excel\<close> assigns, so the row at position
  \<open>i\<close> has label \<open>i\<close>.

  Python floats are modelled as reals. Two functions the program calls belong to
  neither the program nor the model and are parameters of every definition that uses
  them: \<open>token_set_ratio\<close> stands for \<^verbatim>\<open>thefuzz.fuzz.token_set_ratio\<close> (an integer
  score) and \<open>lower\<close> for \<^verbatim>\<open>str.lower\<close>.
\<close>

datatype cell = NA | Val string

type_synonym row = "cell list"
type_synonym dataframe = "row list"

datatype error = IndexError | ZeroDivisionError

text \<open>A block table: the \<^verbatim>\<open>dict\<close> of the program, in insertion order.\<close>

type_synonym groups = "(string \<times> nat list) list"

section \<open>Python primitives\<close>

text \<open>\<^verbatim>\<open>sep.join(xs)\<close>\<close>

fun join :: "string \<Rightarrow> string list \<Rightarrow> string" where
  "join sep [] = []"
| "join sep [x] = x"
| "join sep (x # y # ys) = x @ sep @ join sep (y # ys)"

text \<open>\<^verbatim>\<open>xs[:k]\<close>: a negative \<open>k\<close> counts from the end.\<close>

definition slice_to :: "'a list \<Rightarrow> int \<Rightarrow> 'a list" where
  "slice_to xs k =
     (if 0 \<le> k then take (nat k) xs else take (nat (int (length xs) + k)) xs)"

text \<open>\<^verbatim>\<open>df.iloc[idx]\<close> raises \<^verbatim>\<open>IndexError\<close> out of range.\<close>

definition iloc :: "dataframe \<Rightarrow> nat \<Rightarrow> error + row" where
  "iloc df idx = (if idx < length df then Inr (df ! idx) else Inl IndexError)"



section \<open>Similarity Scorer\<close>

text \<open>
  The expression \<^verbatim>\<open>' '.join(str(val) for val in row if pd.notna(val))\<close>, which the
  program writes out three times (twice in \<^verbatim>\<open>calculate_similarity\<close>, once in
  \<^verbatim>\<open>get_comparison_groups\<close>).
\<close>

fun present :: "row \<Rightarrow> string list" where
  "present [] = []"
| "present (NA # vals) = present vals"
| "present (Val s # vals) = s # present vals"

definition concat_row :: "row \<Rightarrow> string" where
  "concat_row r = join '' '' (present r)"

definition calculate_similarity :: "(string \<Rightarrow> string \<Rightarrow> int) \<Rightarrow> row \<Rightarrow> row \<Rightarrow> real" where
  "calculate_similarity token_set_ratio row1 row2 =
     (let str1 = concat_row row1;
          str2 = concat_row row2
      in real_of_int (token_set_ratio str1 str2) / 100)"

section \<open>Blocking Engine\<close>

text \<open>\<^verbatim>\<open>groups[key].append(idx)\<close> on a \<^verbatim>\<open>defaultdict(list)\<close>: a new key goes last.\<close>

fun dict_append :: "groups \<Rightarrow> string \<Rightarrow> nat \<Rightarrow> groups" where
  "dict_append [] key idx = [(key, [idx])]"
| "dict_append ((k, v) # g) key idx =
     (if k = key then (k, v @ [idx]) # g else (k, v) # dict_append g key idx)"

text \<open>Lines 24 to 26, the body of the loop over \<^verbatim>\<open>enumerate(concatenated)\<close>.\<close>

definition group_row :: "(string \<Rightarrow> string) \<Rightarrow> int \<Rightarrow> nat \<times> string \<Rightarrow> groups \<Rightarrow> groups" where
  "group_row lower leading_chars = (\<lambda>(idx, text) groups.
     if leading_chars \<le> int (length text)
     then (let key = lower (slice_to text leading_chars) in dict_append groups key idx)
     else groups)"

definition get_comparison_groups :: "(string \<Rightarrow> string) \<Rightarrow> dataframe \<Rightarrow> int \<Rightarrow> groups" where
  "get_comparison_groups lower df leading_chars =
     (let concatenated = map concat_row df;
          groups = fold (group_row lower leading_chars) (enumerate 0 concatenated) []
      in filter (\<lambda>(k, v). 1 < length v) groups)"

definition calculate_total_comparisons :: "groups \<Rightarrow> nat" where
  "calculate_total_comparisons groups =
     fold (\<lambda>indices total. let n = length indices in total + (n * (n - 1)) div 2)
       (map snd groups) 0"

section \<open>Duplicate Grouper\<close>

text \<open>
  The calls on the two streamlit widgets, in the order the program makes them:
  \<open>Progress p\<close> is \<^verbatim>\<open>progress_bar.progress(p)\<close>, \<open>Status c t\<close> the text
  "Processed c of t comparisons...", \<open>Complete\<close> the final text.
\<close>

datatype ui_call = Progress real | Status nat nat | Complete

record fd_state =
  duplicate_groups :: "nat set list"
  processed :: "nat set"
  comparison_count :: nat
  ui :: "ui_call list"

text \<open>Lines 72 to 76: count the comparison, report every hundredth one.\<close>

definition count_comparison :: "nat \<Rightarrow> fd_state \<Rightarrow> error + fd_state" where
  "count_comparison total_comparisons s =
     (let c = comparison_count s + 1 in
      if c mod 100 = 0 then
        (if total_comparisons = 0 then Inl ZeroDivisionError
         else Inr (s\<lparr>comparison_count := c,
                     ui := ui s @ [Progress (min (real c / real total_comparisons) 1),
                                   Status c total_comparisons]\<rparr>))
      else Inr (s\<lparr>comparison_count := c\<rparr>))"

text \<open>
  Lines 65 to 80, the loop over \<^verbatim>\<open>group_indices[i + 1:]\<close>; it carries
  \<^verbatim>\<open>current_group\<close> and the state.
\<close>

fun compare_rest ::
  "(string \<Rightarrow> string \<Rightarrow> int) \<Rightarrow> dataframe \<Rightarrow> real \<Rightarrow> nat \<Rightarrow> row \<Rightarrow> nat list \<Rightarrow>
   nat set \<times> fd_state \<Rightarrow> error + nat set \<times> fd_state" where
  "compare_rest tsr df threshold total_comparisons row_i [] cs = Inr cs"
| "compare_rest tsr df threshold total_comparisons row_i (idx2 # rest) (current_group, s) =
     (if idx2 \<in> processed s then compare_rest tsr df threshold total_comparisons row_i rest (current_group, s)
      else case iloc df idx2 of
        Inl e \<Rightarrow> Inl e
      | Inr row_j \<Rightarrow>
          let similarity = calculate_similarity tsr row_i row_j in
          (case count_comparison total_comparisons s of
             Inl e \<Rightarrow> Inl e
           | Inr s' \<Rightarrow>
               if threshold \<le> similarity
               then compare_rest tsr df threshold total_comparisons row_i rest
                      (insert idx2 current_group, s'\<lparr>processed := insert idx2 (processed s')\<rparr>)
               else compare_rest tsr df threshold total_comparisons row_i rest (current_group, s')))"

text \<open>
  Lines 58 to 84, the loop over \<^verbatim>\<open>enumerate(group_indices)\<close>: at \<open>idx1 # rest\<close> the slice
  \<^verbatim>\<open>group_indices[i + 1:]\<close> is \<open>rest\<close>.
\<close>

fun process_group ::
  "(string \<Rightarrow> string \<Rightarrow> int) \<Rightarrow> dataframe \<Rightarrow> real \<Rightarrow> nat \<Rightarrow> nat list \<Rightarrow> fd_state \<Rightarrow>
   error + fd_state" where
  "process_group tsr df threshold total_comparisons [] s = Inr s"
| "process_group tsr df threshold total_comparisons (idx1 # rest) s =
     (if idx1 \<in> processed s then process_group tsr df threshold total_comparisons rest s
      else case iloc df idx1 of
        Inl e \<Rightarrow> Inl e
      | Inr row_i \<Rightarrow>
          (case compare_rest tsr df threshold total_comparisons row_i rest ({idx1}, s) of
             Inl e \<Rightarrow> Inl e
           | Inr (current_group, s') \<Rightarrow>
               let s'' = (if 1 < card current_group
                          then s'\<lparr>duplicate_groups := duplicate_groups s' @ [current_group]\<rparr>
                          else s')
               in process_group tsr df threshold total_comparisons rest
                    (s''\<lparr>processed := insert idx1 (processed s'')\<rparr>)))"

text \<open>Lines 55 to 84, the loop over \<^verbatim>\<open>groups.values()\<close>.\<close>

fun process_groups ::
  "(string \<Rightarrow> string \<Rightarrow> int) \<Rightarrow> dataframe \<Rightarrow> real \<Rightarrow> nat \<Rightarrow> nat list list \<Rightarrow> fd_state \<Rightarrow>
   error + fd_state" where
  "process_groups tsr df threshold total_comparisons [] s = Inr s"
| "process_groups tsr df threshold total_comparisons (group_indices # gs) s =
     (case process_group tsr df threshold total_comparisons group_indices s of
        Inl e \<Rightarrow> Inl e
      | Inr s' \<Rightarrow> process_groups tsr df threshold total_comparisons gs s')"

text \<open>
  The body of \<^verbatim>\<open>find_duplicates\<close> with its final state, so that the comparison counter
  and the widget calls can be read off; \<open>find_duplicates\<close> is what the program returns.
\<close>

definition find_duplicates_run ::
  "(string \<Rightarrow> string \<Rightarrow> int) \<Rightarrow> (string \<Rightarrow> string) \<Rightarrow> dataframe \<Rightarrow> real \<Rightarrow> int \<Rightarrow>
   error + fd_state" where
  "find_duplicates_run tsr lower df threshold leading_chars =
     (let groups = get_comparison_groups lower df leading_chars;
          s0 = \<lparr>duplicate_groups = [], processed = {}, comparison_count = 0,
                ui = [Progress 0]\<rparr>;
          total_comparisons = calculate_total_comparisons groups
      in case process_groups tsr df threshold total_comparisons (map snd groups) s0 of
           Inl e \<Rightarrow> Inl e
         | Inr s \<Rightarrow> Inr (s\<lparr>ui := ui s @ [Progress 1, Complete]\<rparr>))"

definition find_duplicates ::
  "(string \<Rightarrow> string \<Rightarrow> int) \<Rightarrow> (string \<Rightarrow> string) \<Rightarrow> dataframe \<Rightarrow> real \<Rightarrow> int \<Rightarrow>
   error + nat set list" where
  "find_duplicates tsr lower df threshold leading_chars =
     (case find_duplicates_run tsr lower df threshold leading_chars of
        Inl e \<Rightarrow> Inl e
      | Inr s \<Rightarrow> Inr (duplicate_groups s))"

section \<open>Result Annotator\<close>






section \<open>Vocabulary of the properties\<close>

text \<open>
  The rows that one pass of the loop over \<^verbatim>\<open>group_indices[i + 1:]\<close> adds to
  \<^verbatim>\<open>current_group\<close>: those of \<open>rest\<close>, not yet processed, whose similarity with the
  anchor row reaches the threshold.
\<close>

definition matched ::
  "(string \<Rightarrow> string \<Rightarrow> int) \<Rightarrow> dataframe \<Rightarrow> real \<Rightarrow> row \<Rightarrow> nat list \<Rightarrow> nat set \<Rightarrow> nat set" where
  "matched tsr df threshold row_i rest done =
     {i \<in> set rest. i \<notin> done \<and> threshold \<le> calculate_similarity tsr row_i (df ! i)}"

text \<open>
  The test of line 78 on the rows \<open>i\<close> and \<open>j\<close> of the frame, \<open>i\<close> the anchor; the rows that
  are in some cluster, that is, flagged as duplicates; and the condition that within every
  block the test at a threshold is symmetric and transitive.
\<close>

definition similar :: "(string \<Rightarrow> string \<Rightarrow> int) \<Rightarrow> dataframe \<Rightarrow> real \<Rightarrow> nat \<Rightarrow> nat \<Rightarrow> bool" where
  "similar tsr df threshold i j = (threshold \<le> calculate_similarity tsr (df ! i) (df ! j))"

definition flagged :: "nat set list \<Rightarrow> nat set" where
  "flagged dups = \<Union>(set dups)"

definition equivalence_in_blocks ::
  "(string \<Rightarrow> string \<Rightarrow> int) \<Rightarrow> (string \<Rightarrow> string) \<Rightarrow> dataframe \<Rightarrow> real \<Rightarrow> int \<Rightarrow> bool" where
  "equivalence_in_blocks tsr lower df threshold leading_chars =
     (\<forall>g\<in>set (map snd (get_comparison_groups lower df leading_chars)).
        \<forall>i\<in>set g. \<forall>j\<in>set g.
          (similar tsr df threshold i j \<longrightarrow> similar tsr df threshold j i) \<and>
          (\<forall>l\<in>set g. similar tsr df threshold i j \<longrightarrow> similar tsr df threshold j l \<longrightarrow>
                       similar tsr df threshold i l))"

section \<open>Concrete inputs\<close>

text \<open>
  A lowercasing of ASCII letters, and the scores that \<^verbatim>\<open>token_set_ratio\<close> gives on the
  texts \<^verbatim>\<open>ab\<close>, \<^verbatim>\<open>a\<close>, \<^verbatim>\<open>a xxxx\<close> and \<^verbatim>\<open>a yyyy\<close> (first argument the earlier row): a text
  whose words are among the other's scores 100; the others score by the share of
  matching characters, 2 of 3 for \<^verbatim>\<open>ab\<close> and \<^verbatim>\<open>a\<close>, 2 of 8 for \<^verbatim>\<open>ab\<close> and \<^verbatim>\<open>a xxxx\<close>,
  4 of 12 for \<^verbatim>\<open>a xxxx\<close> and \<^verbatim>\<open>a yyyy\<close>, 4 of 6 for \<^verbatim>\<open>b x\<close> and \<^verbatim>\<open>b y\<close>; equal texts
  score 100.
\<close>

definition lower_char :: "char \<Rightarrow> char" where
  "lower_char c =
     (let n = of_char c :: nat in if 65 \<le> n \<and> n \<le> 90 then char_of (n + 32) else c)"

definition ascii_lower :: "string \<Rightarrow> string" where
  "ascii_lower s = map lower_char s"

definition tsr4 :: "string \<Rightarrow> string \<Rightarrow> int" where
  "tsr4 s t =
     (if s = t then 100
      else if (s, t) = (''ab'', ''a'') then 67
      else if (s, t) = (''ab'', ''a xxxx'') then 25
      else if (s, t) = (''ab'', ''a yyyy'') then 25
      else if (s, t) = (''a'', ''a xxxx'') then 100
      else if (s, t) = (''a'', ''a yyyy'') then 100
      else if (s, t) = (''a xxxx'', ''a yyyy'') then 33
      else if (s, t) = (''b x'', ''b y'') then 67
      else if (s, t) = (''b y'', ''b x'') then 67
      else 0)"

definition df4 :: dataframe where
  "df4 = [[Val ''ab''], [Val ''a''], [Val ''a'', Val ''xxxx''], [NA, Val ''a'', Val ''yyyy'']]"

text \<open>
  The same four rows, then two equal rows in a block of their own and a row with no value.
\<close>

definition df6 :: dataframe where
  "df6 = [[Val ''ab''], [Val ''a''], [Val ''a'', Val ''xxxx''], [NA, Val ''a'', Val ''yyyy''],
          [Val ''b''], [Val ''b''], [NA, NA]]"

text \<open>Three rows of one block, the first two equal.\<close>

definition df3 :: dataframe where
  "df3 = [[Val ''b'', Val ''x''], [Val ''b'', NA, Val ''x''], [Val ''b'', Val ''y'']]"

text \<open>
  A lowercasing that follows \<^verbatim>\<open>str.lower\<close> on texts of ASCII characters and the Greek
  letters from capital alpha to small omega. In these texts a character below 128 is the
  ASCII character, and a character \<open>c\<close> from 128 on stands for the code point
  \<open>0x300 + c\<close>: \<open>0x91\<close> is the capital alpha, \<open>0xA3\<close> the capital sigma, \<open>0xB1\<close> the small
  alpha, \<open>0xC2\<close> the final small sigma and \<open>0xC3\<close> the small sigma. A capital letter
  becomes its small letter, except that a capital sigma becomes the final small sigma when
  a cased character precedes it and none follows it, where the characters that casing
  ignores (apostrophe, full stop, colon, circumflex, grave accent) are skipped on both
  sides; otherwise it becomes the small sigma.
\<close>

definition cased :: "char \<Rightarrow> bool" where
  "cased c =
     (let n = of_char c :: nat in
      (65 \<le> n \<and> n \<le> 90) \<or> (97 \<le> n \<and> n \<le> 122) \<or>
      (145 \<le> n \<and> n \<le> 169 \<and> n \<noteq> 162) \<or> (177 \<le> n \<and> n \<le> 201))"

definition case_ignorable :: "char \<Rightarrow> bool" where
  "case_ignorable c = (let n = of_char c :: nat in n = 39 \<or> n = 46 \<or> n = 58 \<or> n = 94 \<or> n = 96)"

definition lower_code_point :: "char \<Rightarrow> char" where
  "lower_code_point c =
     (let n = of_char c :: nat in
      if (65 \<le> n \<and> n \<le> 90) \<or> (145 \<le> n \<and> n \<le> 169 \<and> n \<noteq> 162)
      then char_of (n + 32) else c)"

definition cased_follows :: "string \<Rightarrow> bool" where
  "cased_follows cs = (case dropWhile case_ignorable cs of [] \<Rightarrow> False | d # _ \<Rightarrow> cased d)"

text \<open>
  \<open>lower_after prev_cased cs\<close> lowers \<open>cs\<close>, where \<open>prev_cased\<close> tells whether the nearest
  character before \<open>cs\<close> that casing does not ignore is cased.
\<close>

fun lower_after :: "bool \<Rightarrow> string \<Rightarrow> string" where
  "lower_after prev_cased [] = []"
| "lower_after prev_cased (c # cs) =
     (if c = CHR 0xA3
      then (if prev_cased \<and> \<not> cased_follows cs then CHR 0xC2 else CHR 0xC3)
      else lower_code_point c)
     # lower_after (if case_ignorable c then prev_cased else cased c) cs"

definition sigma_lower :: "string \<Rightarrow> string" where
  "sigma_lower s = lower_after False s"

text \<open>
  Two rows whose texts are capital alpha, capital sigma, \<^verbatim>\<open>abc\<close> and capital alpha, capital
  sigma, capital alpha, \<^verbatim>\<open>abc\<close>. They have the word \<^verbatim>\<open>abc\<close> in common and their first words
  differ by one letter; \<^verbatim>\<open>token_set_ratio\<close> scores them 77.
\<close>

definition df_sigma :: dataframe where
  "df_sigma = [[Val [CHR 0x91, CHR 0xA3], Val ''abc''],
               [Val [CHR 0x91, CHR 0xA3, CHR 0x91], Val ''abc'']]"

definition tsr_sigma :: "string \<Rightarrow> string \<Rightarrow> int" where
  "tsr_sigma s t =
     (if s = t then 100
      else if (s, t) = ([CHR 0x91, CHR 0xA3, CHR '' '', CHR ''a'', CHR ''b'', CHR ''c''],
                        [CHR 0x91, CHR 0xA3, CHR 0x91, CHR '' '', CHR ''a'', CHR ''b'', CHR ''c''])
      then 77
      else 0)"

section \<open>The blocking engine builds the blocks\<close>

lemma map_of_dict_append:
  "map_of (dict_append g key idx) =
     (map_of g)(key \<mapsto> (case map_of g key of None \<Rightarrow> [idx] | Some v \<Rightarrow> v @ [idx]))"
  by (induction g key idx rule: dict_append.induct) (auto simp: fun_eq_iff)

lemma keys_dict_append:
  "map fst (dict_append g key idx) =
     (if key \<in> fst ` set g then map fst g else map fst g @ [key])"
  by (induction g key idx rule: dict_append.induct) auto

lemma distinct_dict_append:
  "distinct (map fst g) \<Longrightarrow> distinct (map fst (dict_append g key idx))"
  by (simp add: keys_dict_append)

lemma fold_group_row:
  "distinct (map fst (fold (group_row lower k) (enumerate 0 texts) [])) \<and>
   (\<forall>key. map_of (fold (group_row lower k) (enumerate 0 texts) []) key =
      (let v = filter (\<lambda>i. k \<le> int (length (texts ! i)) \<and> lower (slice_to (texts ! i) k) = key)
                 [0..<length texts]
       in if v = [] then None else Some v))"
proof (induction texts rule: rev_induct)
  case Nil
  show ?case by simp
next
  case (snoc t ts)
  let ?g = "fold (group_row lower k) (enumerate 0 ts) []"
  let ?Q = "\<lambda>xs key i. k \<le> int (length (xs ! i)) \<and> lower (slice_to (xs ! i) k) = key"
  have step: "fold (group_row lower k) (enumerate 0 (ts @ [t])) [] =
              group_row lower k (length ts, t) ?g"
    by (simp add: enumerate_append_eq)
  have old: "filter (?Q (ts @ [t]) key) [0..<length ts] = filter (?Q ts key) [0..<length ts]" for key
    by (rule filter_cong) (auto simp: nth_append)
  have d: "distinct (map fst (group_row lower k (length ts, t) ?g))"
    using snoc by (simp add: group_row_def distinct_dict_append)
  have m: "map_of (group_row lower k (length ts, t) ?g) key =
      (let v = filter (?Q (ts @ [t]) key) [0..<length (ts @ [t])]
       in if v = [] then None else Some v)" for key
    using snoc by (simp add: group_row_def map_of_dict_append old Let_def)
  show ?case unfolding step using d m by blast
qed

lemma map_of_filter_snd:
  "distinct (map fst g) \<Longrightarrow>
   map_of (filter (\<lambda>(k, v). P v) g) key =
     (case map_of g key of None \<Rightarrow> None | Some v \<Rightarrow> if P v then Some v else None)"
proof (induction g)
  case Nil
  show ?case by simp
next
  case (Cons kv g)
  obtain k v where kv: "kv = (k, v)" by (cases kv)
  from Cons.prems kv have "map_of g k = None"
    by (simp add: map_of_eq_None_iff)
  moreover have "map_of (filter (\<lambda>(k, v). P v) g) k = None"
    using Cons.prems kv by (auto simp: map_of_eq_None_iff)
  ultimately show ?case using Cons kv by (auto split: option.splits)
qed

lemma get_comparison_groups_map_of:
  "map_of (get_comparison_groups lower df k) key =
     (let v = filter (\<lambda>i. k \<le> int (length (concat_row (df ! i))) \<and>
                          lower (slice_to (concat_row (df ! i)) k) = key) [0..<length df]
      in if 1 < length v then Some v else None)"
proof -
  let ?texts = "map concat_row df"
  have eq: "filter (\<lambda>i. k \<le> int (length (?texts ! i)) \<and> lower (slice_to (?texts ! i) k) = key)
              [0..<length ?texts] =
            filter (\<lambda>i. k \<le> int (length (concat_row (df ! i))) \<and>
                          lower (slice_to (concat_row (df ! i)) k) = key) [0..<length df]"
    by (rule filter_cong) auto
  show ?thesis
    using fold_group_row [of lower k ?texts] eq
    by (auto simp: get_comparison_groups_def map_of_filter_snd Let_def split: option.splits)
qed

lemma get_comparison_groups_distinct:
  "distinct (map fst (get_comparison_groups lower df k))"
  using fold_group_row [of lower k "map concat_row df"]
  by (simp add: get_comparison_groups_def distinct_map_filter)

text \<open>
  Claim C5. For \<open>leading_chars \<ge> 1\<close>, \<open>get_comparison_groups\<close> has each key once, and maps
  a key to the list, in row order, of the rows whose text has at least \<open>leading_chars\<close>
  characters and whose lowercased prefix of that length is the key, when that list has
  two members or more; a key whose list is shorter is not in the table.
\<close>

theorem get_comparison_groups_blocks:
  assumes "1 \<le> leading_chars"
  shows "distinct (map fst (get_comparison_groups lower df leading_chars)) \<and>
         (\<forall>key. map_of (get_comparison_groups lower df leading_chars) key =
            (let members = filter (\<lambda>i. leading_chars \<le> int (length (concat_row (df ! i))) \<and>
                       lower (take (nat leading_chars) (concat_row (df ! i))) = key)
                     [0..<length df]
             in if 2 \<le> length members then Some members else None))"
proof -
  have "slice_to t leading_chars = take (nat leading_chars) t" for t :: string
    using assms by (simp add: slice_to_def)
  then show ?thesis
    using get_comparison_groups_map_of [of lower df leading_chars]
      get_comparison_groups_distinct [of lower df leading_chars]
    by (simp add: Let_def Suc_le_eq numeral_2_eq_2)
qed

theorem get_comparison_groups_blocks_witness:
  "(1::int) \<le> 1 \<and>
   map_of (get_comparison_groups ascii_lower df4 1) ''a'' = Some [0, 1, 2, 3] \<and>
   map_of (get_comparison_groups ascii_lower df4 1) ''b'' = None"
proof -
  have h: "(1::int) \<le> 1" by simp
  have a: "filter (\<lambda>i. 1 \<le> int (length (concat_row (df4 ! i))) \<and>
              ascii_lower (take (nat 1) (concat_row (df4 ! i))) = ''a'') [0..<length df4] =
           [0, 1, 2, 3]"
    by code_simp
  have b: "filter (\<lambda>i. 1 \<le> int (length (concat_row (df4 ! i))) \<and>
              ascii_lower (take (nat 1) (concat_row (df4 ! i))) = ''b'') [0..<length df4] = []"
    by code_simp
  from get_comparison_groups_blocks [OF h, of ascii_lower df4]
  have "map_of (get_comparison_groups ascii_lower df4 1) ''a'' = Some [0, 1, 2, 3]"
    and "map_of (get_comparison_groups ascii_lower df4 1) ''b'' = None"
    by (simp_all only: a b Let_def) simp_all
  with h show ?thesis by simp
qed

section \<open>The loops of the duplicate grouper\<close>

lemma count_comparison_ok:
  "0 < tot \<Longrightarrow>
   \<exists>s'. count_comparison tot s = Inr s' \<and> processed s' = processed s \<and>
        duplicate_groups s' = duplicate_groups s \<and>
        comparison_count s' = comparison_count s + 1"
  by (simp add: count_comparison_def Let_def)

lemma matched_Cons_skip:
  "idx2 \<in> P \<Longrightarrow> matched tsr df th r (idx2 # rest) P = matched tsr df th r rest P"
  by (auto simp: matched_def)

lemma matched_Cons_hit:
  "idx2 \<notin> P \<Longrightarrow> th \<le> calculate_similarity tsr r (df ! idx2) \<Longrightarrow>
   matched tsr df th r (idx2 # rest) P = insert idx2 (matched tsr df th r rest (insert idx2 P))"
  by (auto simp: matched_def)

lemma matched_Cons_miss:
  "\<not> th \<le> calculate_similarity tsr r (df ! idx2) \<Longrightarrow>
   matched tsr df th r (idx2 # rest) P = matched tsr df th r rest P"
  by (auto simp: matched_def)

lemma compare_rest_result:
  assumes "0 < tot" and "\<forall>i\<in>set rest. i < length df"
  shows "\<exists>s'. compare_rest tsr df th tot row_i rest (cur, s) =
                Inr (cur \<union> matched tsr df th row_i rest (processed s), s') \<and>
              processed s' = processed s \<union> matched tsr df th row_i rest (processed s) \<and>
              duplicate_groups s' = duplicate_groups s \<and>
              comparison_count s \<le> comparison_count s' \<and>
              comparison_count s' \<le> comparison_count s + length rest"
  using assms(2)
proof (induction rest arbitrary: cur s)
  case Nil
  show ?case by (simp add: matched_def)
next
  case (Cons idx2 rest)
  show ?case
  proof (cases "idx2 \<in> processed s")
    case True
    with Cons.IH [of cur s] Cons.prems show ?thesis
      by (auto simp: matched_Cons_skip)
  next
    case False
    from count_comparison_ok [OF assms(1), of s] obtain s1 where
      s1: "count_comparison tot s = Inr s1" "processed s1 = processed s"
          "duplicate_groups s1 = duplicate_groups s"
          "comparison_count s1 = comparison_count s + 1" by blast
    have il: "iloc df idx2 = Inr (df ! idx2)" using Cons.prems by (simp add: iloc_def)
    show ?thesis
    proof (cases "th \<le> calculate_similarity tsr row_i (df ! idx2)")
      case hit: True
      let ?s2 = "s1\<lparr>processed := insert idx2 (processed s1)\<rparr>"
      from Cons.IH [of "insert idx2 cur" ?s2] Cons.prems obtain s' where
        "compare_rest tsr df th tot row_i rest (insert idx2 cur, ?s2) =
           Inr (insert idx2 cur \<union> matched tsr df th row_i rest (processed ?s2), s')"
        "processed s' = processed ?s2 \<union> matched tsr df th row_i rest (processed ?s2)"
        "duplicate_groups s' = duplicate_groups ?s2"
        "comparison_count ?s2 \<le> comparison_count s'"
        "comparison_count s' \<le> comparison_count ?s2 + length rest" by auto
      with False hit s1 il show ?thesis
        by (simp add: matched_Cons_hit Let_def)
    next
      case miss: False
      from Cons.IH [of cur s1] Cons.prems obtain s' where
        "compare_rest tsr df th tot row_i rest (cur, s1) =
           Inr (cur \<union> matched tsr df th row_i rest (processed s1), s')"
        "processed s' = processed s1 \<union> matched tsr df th row_i rest (processed s1)"
        "duplicate_groups s' = duplicate_groups s1"
        "comparison_count s1 \<le> comparison_count s'"
        "comparison_count s' \<le> comparison_count s1 + length rest" by auto
      with False miss s1 il show ?thesis
        by (simp add: matched_Cons_miss Let_def)
    qed
  qed
qed

lemma matched_subset: "matched tsr df th r rest P \<subseteq> set rest - P"
  by (auto simp: matched_def)

lemma finite_matched: "finite (matched tsr df th r rest P)"
  by (rule finite_subset [OF matched_subset]) simp

lemma triangle_Suc: "(Suc m * m) div 2 = m + (m * (m - 1)) div 2"
proof (cases m)
  case 0
  then show ?thesis by simp
next
  case (Suc k)
  have "Suc (Suc k) * Suc k = 2 * Suc k + Suc k * k" by simp
  then show ?thesis using Suc by (simp del: mult_Suc mult_Suc_right)
qed

lemma process_group_step:
  assumes nin: "idx1 \<notin> processed s"
    and il: "idx1 < length df"
    and cr: "compare_rest tsr df th tot (df ! idx1) rest ({idx1}, s) = Inr (cg, s1)"
  shows "process_group tsr df th tot (idx1 # rest) s =
           process_group tsr df th tot rest
             \<lparr>duplicate_groups = duplicate_groups s1 @ (if 1 < card cg then [cg] else []),
              processed = insert idx1 (processed s1),
              comparison_count = comparison_count s1, ui = ui s1\<rparr>"
  using nin il cr by (cases s1) (simp add: iloc_def Let_def)

lemma process_group_result:
  assumes "0 < tot" and "\<forall>i\<in>set grp. i < length df"
  shows "\<exists>s' new. process_group tsr df th tot grp s = Inr s' \<and>
           processed s' = processed s \<union> set grp \<and>
           duplicate_groups s' = duplicate_groups s @ new \<and>
           (\<forall>c\<in>set new. c \<subseteq> set grp \<and> c \<inter> processed s = {} \<and> 2 \<le> card c) \<and>
           sorted_wrt (\<lambda>a b. a \<inter> b = {}) new \<and>
           comparison_count s \<le> comparison_count s' \<and>
           comparison_count s' \<le> comparison_count s + (length grp * (length grp - 1)) div 2"
  using assms(2)
proof (induction grp arbitrary: s)
  case Nil
  show ?case by simp
next
  case (Cons idx1 rest)
  have rest_ok: "\<forall>i\<in>set rest. i < length df" using Cons.prems by simp
  have tri: "(length (idx1 # rest) * (length (idx1 # rest) - 1)) div 2 =
             length rest + (length rest * (length rest - 1)) div 2"
    using triangle_Suc [of "length rest"] by simp
  show ?case
  proof (cases "idx1 \<in> processed s")
    case True
    from Cons.IH [OF rest_ok, of s] obtain s' new where r:
      "process_group tsr df th tot rest s = Inr s'"
      "processed s' = processed s \<union> set rest"
      "duplicate_groups s' = duplicate_groups s @ new"
      "\<forall>c\<in>set new. c \<subseteq> set rest \<and> c \<inter> processed s = {} \<and> 2 \<le> card c"
      "sorted_wrt (\<lambda>a b. a \<inter> b = {}) new"
      "comparison_count s \<le> comparison_count s'"
      "comparison_count s' \<le> comparison_count s + (length rest * (length rest - 1)) div 2"
      by (elim exE conjE) (rule that)
    have P: "processed s' = processed s \<union> set (idx1 # rest)" using r(2) True by auto
    have N: "\<forall>c\<in>set new. c \<subseteq> set (idx1 # rest) \<and> c \<inter> processed s = {} \<and> 2 \<le> card c"
      using r(4) by auto
    have C: "comparison_count s' \<le>
        comparison_count s + (length (idx1 # rest) * (length (idx1 # rest) - 1)) div 2"
      using r(7) unfolding tri by linarith
    have run: "process_group tsr df th tot (idx1 # rest) s = Inr s'"
      using True r(1) by simp
    show ?thesis by (intro exI conjI) (rule run P r(3) N r(5) r(6) C)+
  next
    case False
    define M where "M = matched tsr df th (df ! idx1) rest (processed s)"
    define cg where "cg = insert idx1 M"
    have il: "idx1 < length df" using Cons.prems by simp
    from compare_rest_result [OF assms(1) rest_ok, of tsr th "df ! idx1" "{idx1}" s]
    obtain s1 where s1:
      "compare_rest tsr df th tot (df ! idx1) rest ({idx1}, s) = Inr (cg, s1)"
      "processed s1 = processed s \<union> M"
      "duplicate_groups s1 = duplicate_groups s"
      "comparison_count s \<le> comparison_count s1"
      "comparison_count s1 \<le> comparison_count s + length rest"
      unfolding M_def cg_def by auto
    define X where "X = (if 1 < card cg then [cg] else [])"
    define s2 where "s2 = \<lparr>duplicate_groups = duplicate_groups s1 @ X,
              processed = insert idx1 (processed s1),
              comparison_count = comparison_count s1, ui = ui s1\<rparr>"
    have step: "process_group tsr df th tot (idx1 # rest) s = process_group tsr df th tot rest s2"
      unfolding s2_def X_def by (rule process_group_step [OF False il s1(1)])
    have p2: "processed s2 = insert idx1 (processed s \<union> M)" using s1(2) by (simp add: s2_def)
    have d2: "duplicate_groups s2 = duplicate_groups s @ X" using s1(3) by (simp add: s2_def)
    have c2: "comparison_count s2 = comparison_count s1" by (simp add: s2_def)
    from Cons.IH [OF rest_ok, of s2] obtain s' new where r:
      "process_group tsr df th tot rest s2 = Inr s'"
      "processed s' = processed s2 \<union> set rest"
      "duplicate_groups s' = duplicate_groups s2 @ new"
      "\<forall>c\<in>set new. c \<subseteq> set rest \<and> c \<inter> processed s2 = {} \<and> 2 \<le> card c"
      "sorted_wrt (\<lambda>a b. a \<inter> b = {}) new"
      "comparison_count s2 \<le> comparison_count s'"
      "comparison_count s' \<le> comparison_count s2 + (length rest * (length rest - 1)) div 2"
      by (elim exE conjE) (rule that)
    have M: "M \<subseteq> set rest" "M \<inter> processed s = {}"
      using matched_subset [of tsr df th "df ! idx1" rest "processed s"]
      unfolding M_def by auto
    have run: "process_group tsr df th tot (idx1 # rest) s = Inr s'"
      using step r(1) by simp
    have P: "processed s' = processed s \<union> set (idx1 # rest)"
      using r(2) p2 M(1) by auto
    have D: "duplicate_groups s' = duplicate_groups s @ (X @ new)"
      using r(3) d2 by simp
    have cg: "cg \<subseteq> set (idx1 # rest)" "cg \<inter> processed s = {}" "cg \<subseteq> processed s2"
      using M False p2 unfolding cg_def by auto
    have X: "\<forall>c\<in>set X. c = cg \<and> 2 \<le> card c"
      unfolding X_def by simp
    have N: "\<forall>c\<in>set (X @ new). c \<subseteq> set (idx1 # rest) \<and> c \<inter> processed s = {} \<and> 2 \<le> card c"
    proof
      fix c assume "c \<in> set (X @ new)"
      then consider "c \<in> set X" | "c \<in> set new" by auto
      then show "c \<subseteq> set (idx1 # rest) \<and> c \<inter> processed s = {} \<and> 2 \<le> card c"
      proof cases
        case 1
        with X have "c = cg" "2 \<le> card c" by auto
        then show ?thesis using cg(1,2) by simp
      next
        case 2
        with r(4) have "c \<subseteq> set rest" "c \<inter> processed s2 = {}" "2 \<le> card c" by auto
        moreover have "processed s \<subseteq> processed s2" using p2 by auto
        ultimately show ?thesis by auto
      qed
    qed
    have S: "sorted_wrt (\<lambda>a b. a \<inter> b = {}) (X @ new)"
    proof -
      have "\<forall>c\<in>set new. cg \<inter> c = {}"
      proof
        fix c assume "c \<in> set new"
        with r(4) have "c \<inter> processed s2 = {}" by blast
        with cg(3) show "cg \<inter> c = {}" by blast
      qed
      with r(5) show ?thesis unfolding X_def by simp
    qed
    have C1: "comparison_count s \<le> comparison_count s'"
      using s1(4) r(6) c2 by linarith
    have C2: "comparison_count s' \<le>
        comparison_count s + (length (idx1 # rest) * (length (idx1 # rest) - 1)) div 2"
      using s1(5) r(7) c2 unfolding tri by linarith
    show ?thesis by (intro exI conjI) (rule run P D N S C1 C2)+
  qed
qed

lemma process_groups_result:
  assumes "0 < tot" and "\<forall>g\<in>set gs. \<forall>i\<in>set g. i < length df"
  shows "\<exists>s' new. process_groups tsr df th tot gs s = Inr s' \<and>
           processed s' = processed s \<union> \<Union>(set ` set gs) \<and>
           duplicate_groups s' = duplicate_groups s @ new \<and>
           (\<forall>c\<in>set new. (\<exists>g\<in>set gs. c \<subseteq> set g) \<and> c \<inter> processed s = {} \<and> 2 \<le> card c) \<and>
           sorted_wrt (\<lambda>a b. a \<inter> b = {}) new \<and>
           comparison_count s' \<le>
             comparison_count s + sum_list (map (\<lambda>g. (length g * (length g - 1)) div 2) gs)"
  using assms(2)
proof (induction gs arbitrary: s)
  case Nil
  show ?case by simp
next
  case (Cons g gs)
  have g_ok: "\<forall>i\<in>set g. i < length df" and gs_ok: "\<forall>g\<in>set gs. \<forall>i\<in>set g. i < length df"
    using Cons.prems by simp_all
  from process_group_result [OF assms(1) g_ok, of tsr th s] obtain s1 new1 where a:
    "process_group tsr df th tot g s = Inr s1"
    "processed s1 = processed s \<union> set g"
    "duplicate_groups s1 = duplicate_groups s @ new1"
    "\<forall>c\<in>set new1. c \<subseteq> set g \<and> c \<inter> processed s = {} \<and> 2 \<le> card c"
    "sorted_wrt (\<lambda>a b. a \<inter> b = {}) new1"
    "comparison_count s \<le> comparison_count s1"
    "comparison_count s1 \<le> comparison_count s + (length g * (length g - 1)) div 2"
    by (elim exE conjE) (rule that)
  from Cons.IH [OF gs_ok, of s1] obtain s' new where r:
    "process_groups tsr df th tot gs s1 = Inr s'"
    "processed s' = processed s1 \<union> \<Union>(set ` set gs)"
    "duplicate_groups s' = duplicate_groups s1 @ new"
    "\<forall>c\<in>set new. (\<exists>g\<in>set gs. c \<subseteq> set g) \<and> c \<inter> processed s1 = {} \<and> 2 \<le> card c"
    "sorted_wrt (\<lambda>a b. a \<inter> b = {}) new"
    "comparison_count s' \<le>
       comparison_count s1 + sum_list (map (\<lambda>g. (length g * (length g - 1)) div 2) gs)"
    by (elim exE conjE) (rule that)
  have run: "process_groups tsr df th tot (g # gs) s = Inr s'"
    using a(1) r(1) by simp
  have P: "processed s' = processed s \<union> \<Union>(set ` set (g # gs))"
    using r(2) a(2) by auto
  have D: "duplicate_groups s' = duplicate_groups s @ (new1 @ new)"
    using r(3) a(3) by simp
  have N: "\<forall>c\<in>set (new1 @ new).
             (\<exists>g'\<in>set (g # gs). c \<subseteq> set g') \<and> c \<inter> processed s = {} \<and> 2 \<le> card c"
  proof
    fix c assume "c \<in> set (new1 @ new)"
    then consider "c \<in> set new1" | "c \<in> set new" by auto
    then show "(\<exists>g'\<in>set (g # gs). c \<subseteq> set g') \<and> c \<inter> processed s = {} \<and> 2 \<le> card c"
    proof cases
      case 1
      with a(4) show ?thesis by auto
    next
      case 2
      with r(4) have "\<exists>g\<in>set gs. c \<subseteq> set g" "c \<inter> processed s1 = {}" "2 \<le> card c"
        by auto
      moreover have "processed s \<subseteq> processed s1" using a(2) by auto
      ultimately show ?thesis by auto
    qed
  qed
  have S: "sorted_wrt (\<lambda>a b. a \<inter> b = {}) (new1 @ new)"
  proof -
    have "\<forall>c1\<in>set new1. \<forall>c2\<in>set new. c1 \<inter> c2 = {}"
    proof (intro ballI)
      fix c1 c2 assume "c1 \<in> set new1" "c2 \<in> set new"
      with a(4) r(4) have "c1 \<subseteq> set g" "c2 \<inter> processed s1 = {}" by auto
      with a(2) show "c1 \<inter> c2 = {}" by auto
    qed
    with a(5) r(5) show ?thesis by (simp add: sorted_wrt_append)
  qed
  have C: "comparison_count s' \<le>
      comparison_count s + sum_list (map (\<lambda>g. (length g * (length g - 1)) div 2) (g # gs))"
    using a(7) r(6) by simp
  show ?case by (intro exI conjI) (rule run P D N S C)+
qed

lemma calculate_total_comparisons_sum:
  "calculate_total_comparisons groups =
     sum_list (map (\<lambda>g. (length g * (length g - 1)) div 2) (map snd groups))"
proof -
  have "fold (\<lambda>indices tot. let n = length indices in tot + (n * (n - 1)) div 2) gs a =
        a + sum_list (map (\<lambda>g. (length g * (length g - 1)) div 2) gs)" for gs :: "nat list list" and a
    by (induction gs arbitrary: a) (simp_all add: Let_def)
  then show ?thesis by (simp add: calculate_total_comparisons_def)
qed

lemma get_comparison_groups_member:
  assumes "(key, v) \<in> set (get_comparison_groups lower df k)"
  shows "v = filter (\<lambda>i. k \<le> int (length (concat_row (df ! i))) \<and>
                          lower (slice_to (concat_row (df ! i)) k) = key) [0..<length df]"
    and "1 < length v"
proof -
  have "map_of (get_comparison_groups lower df k) key = Some v"
    using assms get_comparison_groups_distinct [of lower df k] by simp
  then have "v = filter (\<lambda>i. k \<le> int (length (concat_row (df ! i))) \<and>
                          lower (slice_to (concat_row (df ! i)) k) = key) [0..<length df] \<and>
             1 < length v"
    unfolding get_comparison_groups_map_of by (simp add: Let_def split: if_splits)
  then show "v = filter (\<lambda>i. k \<le> int (length (concat_row (df ! i))) \<and>
                          lower (slice_to (concat_row (df ! i)) k) = key) [0..<length df]"
    and "1 < length v" by blast+
qed

lemma get_comparison_groups_index:
  assumes "(key, v) \<in> set (get_comparison_groups lower df k)" and "i \<in> set v"
  shows "i < length df" and "k \<le> int (length (concat_row (df ! i)))"
    and "lower (slice_to (concat_row (df ! i)) k) = key"
  using assms(2) unfolding get_comparison_groups_member(1) [OF assms(1)] by simp_all

lemma total_comparisons_pos:
  assumes "get_comparison_groups lower df k \<noteq> []"
  shows "0 < calculate_total_comparisons (get_comparison_groups lower df k)"
proof -
  from assms obtain key v where kv: "(key, v) \<in> set (get_comparison_groups lower df k)"
    by (cases "get_comparison_groups lower df k") auto
  then have "1 < length v" by (rule get_comparison_groups_member(2))
  then have "1 \<le> length v - 1" "2 \<le> length v" by simp_all
  then have "2 * 1 \<le> length v * (length v - 1)" by (intro mult_le_mono)
  then have "0 < (length v * (length v - 1)) div 2" by simp
  moreover have "(length v * (length v - 1)) div 2 \<in>
      set (map (\<lambda>g. (length g * (length g - 1)) div 2)
             (map snd (get_comparison_groups lower df k)))"
    using kv by force
  then have "(length v * (length v - 1)) div 2 \<le>
      sum_list (map (\<lambda>g. (length g * (length g - 1)) div 2)
                 (map snd (get_comparison_groups lower df k)))"
    by (rule member_le_sum_list) simp
  ultimately have "0 < sum_list (map (\<lambda>g. (length g * (length g - 1)) div 2)
                      (map snd (get_comparison_groups lower df k)))"
    by linarith
  then show ?thesis by (simp only: calculate_total_comparisons_sum)
qed

section \<open>The clusters\<close>

lemma find_duplicates_run_result:
  "\<exists>s. find_duplicates_run tsr lower df th k = Inr s \<and>
       sorted_wrt (\<lambda>a b. a \<inter> b = {}) (duplicate_groups s) \<and>
       (\<forall>c\<in>set (duplicate_groups s).
          (\<exists>g\<in>set (map snd (get_comparison_groups lower df k)). c \<subseteq> set g) \<and> 2 \<le> card c) \<and>
       comparison_count s \<le> calculate_total_comparisons (get_comparison_groups lower df k)"
proof (cases "get_comparison_groups lower df k = []")
  case True
  then show ?thesis
    by (simp add: find_duplicates_run_def)
next
  case False
  define G where "G = get_comparison_groups lower df k"
  define s0 where "s0 = \<lparr>duplicate_groups = [], processed = {}, comparison_count = 0,
                ui = [Progress 0]\<rparr>"
  have pos: "0 < calculate_total_comparisons G"
    unfolding G_def using False by (rule total_comparisons_pos)
  have ok: "\<forall>g\<in>set (map snd G). \<forall>i\<in>set g. i < length df"
    unfolding G_def using get_comparison_groups_index(1) by fastforce
  from process_groups_result [OF pos ok, of tsr th s0] obtain s' new where r:
    "process_groups tsr df th (calculate_total_comparisons G) (map snd G) s0 = Inr s'"
    "processed s' = processed s0 \<union> \<Union>(set ` set (map snd G))"
    "duplicate_groups s' = duplicate_groups s0 @ new"
    "\<forall>c\<in>set new. (\<exists>g\<in>set (map snd G). c \<subseteq> set g) \<and> c \<inter> processed s0 = {} \<and> 2 \<le> card c"
    "sorted_wrt (\<lambda>a b. a \<inter> b = {}) new"
    "comparison_count s' \<le> comparison_count s0 +
       sum_list (map (\<lambda>g. (length g * (length g - 1)) div 2) (map snd G))"
    by (elim exE conjE) (rule that)
  define s where "s = s'\<lparr>ui := ui s' @ [Progress 1, Complete]\<rparr>"
  have run: "find_duplicates_run tsr lower df th k = Inr s"
    using r(1) by (simp add: find_duplicates_run_def G_def s0_def s_def Let_def)
  have d: "duplicate_groups s = new" using r(3) by (simp add: s_def s0_def)
  have S: "sorted_wrt (\<lambda>a b. a \<inter> b = {}) (duplicate_groups s)" using r(5) d by simp
  have N: "\<forall>c\<in>set (duplicate_groups s).
          (\<exists>g\<in>set (map snd (get_comparison_groups lower df k)). c \<subseteq> set g) \<and> 2 \<le> card c"
    using r(4) unfolding d G_def by blast
  have C: "comparison_count s \<le> calculate_total_comparisons (get_comparison_groups lower df k)"
    using r(6) by (simp add: s_def s0_def calculate_total_comparisons_sum G_def)
  show ?thesis by (intro exI conjI) (rule run S N C)+
qed

lemma find_duplicates_result:
  "\<exists>s. find_duplicates_run tsr lower df th k = Inr s \<and>
       find_duplicates tsr lower df th k = Inr (duplicate_groups s)"
  using find_duplicates_run_result [of tsr lower df th k]
  by (auto simp: find_duplicates_def)

text \<open>
  Claim C1. \<open>find_duplicates\<close> returns, and the clusters it returns are pairwise disjoint
  (two clusters at different positions of the list share no row) and have two members or
  more each.
\<close>

theorem find_duplicates_disjoint:
  "\<exists>dups. find_duplicates tsr lower df threshold leading_chars = Inr dups \<and>
     (\<forall>i<length dups. \<forall>j<length dups. i \<noteq> j \<longrightarrow> dups ! i \<inter> dups ! j = {}) \<and>
     (\<forall>c\<in>set dups. 2 \<le> card c)"
proof -
  from find_duplicates_run_result [of tsr lower df threshold leading_chars] obtain s where s:
    "find_duplicates_run tsr lower df threshold leading_chars = Inr s"
    "sorted_wrt (\<lambda>a b. a \<inter> b = {}) (duplicate_groups s)"
    "\<forall>c\<in>set (duplicate_groups s).
          (\<exists>g\<in>set (map snd (get_comparison_groups lower df leading_chars)). c \<subseteq> set g) \<and>
          2 \<le> card c"
    by (elim exE conjE) (rule that)
  have run: "find_duplicates tsr lower df threshold leading_chars = Inr (duplicate_groups s)"
    using s(1) by (simp add: find_duplicates_def)
  have lt: "duplicate_groups s ! i \<inter> duplicate_groups s ! j = {}"
    if "i < j" "j < length (duplicate_groups s)" for i j
    using s(2) that by (simp add: sorted_wrt_iff_nth_less)
  have D: "\<forall>i<length (duplicate_groups s). \<forall>j<length (duplicate_groups s).
             i \<noteq> j \<longrightarrow> duplicate_groups s ! i \<inter> duplicate_groups s ! j = {}"
  proof (intro allI impI)
    fix i j assume ij: "i < length (duplicate_groups s)" "j < length (duplicate_groups s)" "i \<noteq> j"
    then consider "i < j" | "j < i" by linarith
    then show "duplicate_groups s ! i \<inter> duplicate_groups s ! j = {}"
    proof cases
      case 1
      then show ?thesis using lt ij by simp
    next
      case 2
      then have "duplicate_groups s ! j \<inter> duplicate_groups s ! i = {}" using lt ij by simp
      then show ?thesis by (simp add: Int_commute)
    qed
  qed
  have K: "\<forall>c\<in>set (duplicate_groups s). 2 \<le> card c" using s(3) by blast
  show ?thesis by (intro exI conjI) (rule run D K)+
qed

theorem find_duplicates_disjoint_witness:
  "find_duplicates tsr4 ascii_lower df6 (9 / 10) 1 = Inr [{1, 2, 3}, {4, 5}] \<and>
   [{1, 2, 3}, {4, 5 :: nat}] ! 0 \<inter> [{1, 2, 3}, {4, 5}] ! 1 = {} \<and>
   2 \<le> card {1, 2, 3 :: nat} \<and> 2 \<le> card {4, 5 :: nat}"
proof -
  have ev: "find_duplicates tsr4 ascii_lower df6 (9 / 10) 1 = Inr [{1, 2, 3}, {4, 5}]"
    by code_simp
  from find_duplicates_disjoint [of tsr4 ascii_lower df6 "9 / 10" 1] obtain dups where d:
    "find_duplicates tsr4 ascii_lower df6 (9 / 10) 1 = Inr dups"
    "\<forall>i<length dups. \<forall>j<length dups. i \<noteq> j \<longrightarrow> dups ! i \<inter> dups ! j = {}"
    "\<forall>c\<in>set dups. 2 \<le> card c"
    by (elim exE conjE) (rule that)
  from d(1) ev have eq: "dups = [{1, 2, 3}, {4, 5}]" by simp
  have "[{1, 2, 3}, {4, 5 :: nat}] ! 0 \<inter> [{1, 2, 3}, {4, 5}] ! 1 = {}"
    using d(2) [unfolded eq, rule_format, of 0 1] by simp
  moreover have "2 \<le> card {1, 2, 3 :: nat}" "2 \<le> card {4, 5 :: nat}"
    using d(3) [unfolded eq] by simp_all
  ultimately show ?thesis using ev by blast
qed

text \<open>
  Claim C2 as stated fails where the lowercasing depends on the context. The two rows of
  \<open>df_sigma\<close> have the same first two characters, capital alpha and capital sigma, hence
  the same key at \<open>leading_chars = 2\<close>: small alpha, final small sigma. They are compared,
  score 0.77 and are one cluster at threshold 0.5. But the first two characters of their
  lowercased texts differ: in the second text a letter follows the sigma, which becomes
  the small sigma there and the final one in the first text.
\<close>

theorem same_block_lowered_prefix_differs:
  "find_duplicates tsr_sigma sigma_lower df_sigma (1 / 2) 2 = Inr [{0, 1}] \<and>
   sigma_lower (take 2 (concat_row (df_sigma ! 0))) = [CHR 0xB1, CHR 0xC2] \<and>
   sigma_lower (take 2 (concat_row (df_sigma ! 1))) = [CHR 0xB1, CHR 0xC2] \<and>
   take 2 (sigma_lower (concat_row (df_sigma ! 0))) = [CHR 0xB1, CHR 0xC2] \<and>
   take 2 (sigma_lower (concat_row (df_sigma ! 1))) = [CHR 0xB1, CHR 0xC3] \<and>
   take 2 (sigma_lower (concat_row (df_sigma ! 0))) \<noteq>
     take 2 (sigma_lower (concat_row (df_sigma ! 1)))"
  by code_simp

text \<open>
  Claim C2, amended. For \<open>leading_chars \<ge> 1\<close>, \<open>find_duplicates\<close> returns, every row of a
  returned cluster is a row of the frame whose text has at least \<open>leading_chars\<close> characters,
  and two rows of one cluster have the same block key, the lowercasing of the first
  \<open>leading_chars\<close> characters of the text.
\<close>

theorem find_duplicates_same_block:
  assumes "1 \<le> leading_chars"
  shows "\<exists>dups. find_duplicates tsr lower df threshold leading_chars = Inr dups \<and>
     (\<forall>c\<in>set dups. \<forall>i\<in>c.
        i < length df \<and> leading_chars \<le> int (length (concat_row (df ! i))) \<and>
        (\<forall>j\<in>c. lower (take (nat leading_chars) (concat_row (df ! i))) =
                lower (take (nat leading_chars) (concat_row (df ! j)))))"
proof -
  from find_duplicates_run_result [of tsr lower df threshold leading_chars] obtain s where s:
    "find_duplicates_run tsr lower df threshold leading_chars = Inr s"
    "\<forall>c\<in>set (duplicate_groups s).
          (\<exists>g\<in>set (map snd (get_comparison_groups lower df leading_chars)). c \<subseteq> set g) \<and>
          2 \<le> card c"
    by (elim exE conjE) (rule that)
  have run: "find_duplicates tsr lower df threshold leading_chars = Inr (duplicate_groups s)"
    using s(1) by (simp add: find_duplicates_def)
  have sl: "slice_to t leading_chars = take (nat leading_chars) t" for t :: string
    using assms by (simp add: slice_to_def)
  have B: "\<forall>c\<in>set (duplicate_groups s). \<forall>i\<in>c.
        i < length df \<and> leading_chars \<le> int (length (concat_row (df ! i))) \<and>
        (\<forall>j\<in>c. lower (take (nat leading_chars) (concat_row (df ! i))) =
                lower (take (nat leading_chars) (concat_row (df ! j))))"
  proof (intro ballI)
    fix c i assume c: "c \<in> set (duplicate_groups s)" and i: "i \<in> c"
    from s(2) c obtain g where "g \<in> set (map snd (get_comparison_groups lower df leading_chars))"
      and cg: "c \<subseteq> set g" by blast
    then obtain key where kv: "(key, g) \<in> set (get_comparison_groups lower df leading_chars)"
      by auto
    have mem: "x < length df \<and> leading_chars \<le> int (length (concat_row (df ! x))) \<and>
               lower (take (nat leading_chars) (concat_row (df ! x))) = key" if "x \<in> c" for x
    proof -
      from that cg have "x \<in> set g" by blast
      from get_comparison_groups_index [OF kv this] show ?thesis by (simp add: sl)
    qed
    show "i < length df \<and> leading_chars \<le> int (length (concat_row (df ! i))) \<and>
        (\<forall>j\<in>c. lower (take (nat leading_chars) (concat_row (df ! i))) =
                lower (take (nat leading_chars) (concat_row (df ! j))))"
      using mem [OF i] mem by simp
  qed
  show ?thesis by (intro exI conjI) (rule run B)+
qed

theorem find_duplicates_same_block_witness:
  "(1 :: int) \<le> 1 \<and>
   find_duplicates tsr4 ascii_lower df6 (9 / 10) 1 = Inr [{1, 2, 3}, {4, 5}] \<and>
   (2 :: nat) < length df6 \<and> (1 :: int) \<le> int (length (concat_row (df6 ! 2))) \<and>
   ascii_lower (take (nat 1) (concat_row (df6 ! 2))) =
     ascii_lower (take (nat 1) (concat_row (df6 ! 3)))"
proof -
  have h: "(1 :: int) \<le> 1" by simp
  have ev: "find_duplicates tsr4 ascii_lower df6 (9 / 10) 1 = Inr [{1, 2, 3}, {4, 5}]"
    by code_simp
  from find_duplicates_same_block [OF h, of tsr4 ascii_lower df6 "9 / 10"] obtain dups where d:
    "find_duplicates tsr4 ascii_lower df6 (9 / 10) 1 = Inr dups"
    "\<forall>c\<in>set dups. \<forall>i\<in>c.
        i < length df6 \<and> 1 \<le> int (length (concat_row (df6 ! i))) \<and>
        (\<forall>j\<in>c. ascii_lower (take (nat 1) (concat_row (df6 ! i))) =
                ascii_lower (take (nat 1) (concat_row (df6 ! j))))"
    by (elim exE conjE) (rule that)
  from d(1) ev have eq: "dups = [{1, 2, 3}, {4, 5}]" by simp
  have t: "2 < length df6 \<and> 1 \<le> int (length (concat_row (df6 ! 2))) \<and>
        (\<forall>j\<in>{1, 2, 3}. ascii_lower (take (nat 1) (concat_row (df6 ! 2))) =
                ascii_lower (take (nat 1) (concat_row (df6 ! j))))"
    by (rule d(2) [rule_format, of "{1, 2, 3}" 2]) (simp_all add: eq)
  then have "\<forall>j\<in>{1, 2, 3}. ascii_lower (take (nat 1) (concat_row (df6 ! 2))) =
                ascii_lower (take (nat 1) (concat_row (df6 ! j)))"
    by (elim conjE)
  then have "ascii_lower (take (nat 1) (concat_row (df6 ! 2))) =
             ascii_lower (take (nat 1) (concat_row (df6 ! 3)))"
    by (rule bspec) simp
  with t have w: "2 < length df6 \<and> 1 \<le> int (length (concat_row (df6 ! 2))) \<and>
     ascii_lower (take (nat 1) (concat_row (df6 ! 2))) =
     ascii_lower (take (nat 1) (concat_row (df6 ! 3)))"
    by (elim conjE) (intro conjI)
  show ?thesis by (rule w h ev conjI)+
qed

section \<open>Configuration\<close>

text \<open>
  Claim C3 as stated fails. With threshold 2, outside \<open>[0, 1]\<close>, the run ends normally
  after seven comparisons; with \<open>leading_chars = 0\<close> every row, the empty one too, is in the
  block of the empty key, and two clusters are returned after thirteen comparisons.
\<close>

theorem find_duplicates_runs_on_invalid_configuration:
  "find_duplicates_run tsr4 ascii_lower df6 2 1 =
     Inr \<lparr>duplicate_groups = [], processed = {0, 1, 2, 3, 4, 5}, comparison_count = 7,
          ui = [Progress 0, Progress 1, Complete]\<rparr> \<and>
   find_duplicates_run tsr4 ascii_lower df6 (9 / 10) 0 =
     Inr \<lparr>duplicate_groups = [{1, 2, 3}, {4, 5}], processed = {0, 1, 2, 3, 4, 5, 6},
          comparison_count = 13, ui = [Progress 0, Progress 1, Complete]\<rparr>"
  by code_simp

text \<open>
  Claim C3, amended. \<open>find_duplicates\<close> checks neither the threshold nor \<open>leading_chars\<close>:
  whatever they are, it runs and returns a list of clusters, never an error.
\<close>

theorem find_duplicates_never_rejects:
  "\<exists>dups. find_duplicates tsr lower df threshold leading_chars = Inr dups"
  using find_duplicates_result [of tsr lower df threshold leading_chars] by blast

section \<open>The annotation\<close>










section \<open>The number of comparisons\<close>

lemma compare_rest_count_all:
  assumes "0 < tot" and "\<forall>i\<in>set rest. i < length df"
    and "set rest \<inter> processed s = {}"
    and "matched tsr df th row_i rest (processed s) = {}"
    and "compare_rest tsr df th tot row_i rest (cur, s) = Inr (cur', s')"
  shows "comparison_count s' = comparison_count s + length rest"
  using assms(2-)
proof (induction rest arbitrary: cur s)
  case Nil
  then show ?case by simp
next
  case (Cons idx2 rest)
  have nin: "idx2 \<notin> processed s" using Cons.prems(2) by auto
  have miss: "\<not> th \<le> calculate_similarity tsr row_i (df ! idx2)"
    using Cons.prems(3) nin by (auto simp: matched_def)
  from count_comparison_ok [OF assms(1), of s] obtain s1 where s1:
    "count_comparison tot s = Inr s1" "processed s1 = processed s"
    "comparison_count s1 = comparison_count s + 1"
    by (elim exE conjE) (rule that)
  have il: "iloc df idx2 = Inr (df ! idx2)" using Cons.prems(1) by (simp add: iloc_def)
  have run: "compare_rest tsr df th tot row_i rest (cur, s1) = Inr (cur', s')"
    using Cons.prems(4) nin miss s1(1) il by (simp add: Let_def)
  have m: "matched tsr df th row_i rest (processed s1) = {}"
    using Cons.prems(3) s1(2) by (auto simp: matched_def)
  have "comparison_count s' = comparison_count s1 + length rest"
    using Cons.IH [OF _ _ m run] Cons.prems(1,2) s1(2) by auto
  then show ?case using s1(3) by simp
qed

lemma process_group_count_all:
  assumes "0 < tot" and "\<forall>i\<in>set grp. i < length df"
    and "distinct grp" and "set grp \<inter> processed s = {}"
    and "process_group tsr df th tot grp s = Inr s'"
    and "duplicate_groups s' = duplicate_groups s"
  shows "comparison_count s' = comparison_count s + (length grp * (length grp - 1)) div 2"
  using assms(2-)
proof (induction grp arbitrary: s)
  case Nil
  then show ?case by simp
next
  case (Cons idx1 rest)
  have rest_ok: "\<forall>i\<in>set rest. i < length df" and il: "idx1 < length df"
    using Cons.prems(1) by simp_all
  have nin: "idx1 \<notin> processed s" and nrest: "idx1 \<notin> set rest" and drest: "distinct rest"
    and disj: "set rest \<inter> processed s = {}"
    using Cons.prems(2,3) by auto
  have tri: "(length (idx1 # rest) * (length (idx1 # rest) - 1)) div 2 =
             length rest + (length rest * (length rest - 1)) div 2"
    using triangle_Suc [of "length rest"] by simp
  define M where "M = matched tsr df th (df ! idx1) rest (processed s)"
  define cg where "cg = insert idx1 M"
  from compare_rest_result [OF assms(1) rest_ok, of tsr th "df ! idx1" "{idx1}" s]
  obtain s1 where s1:
    "compare_rest tsr df th tot (df ! idx1) rest ({idx1}, s) = Inr (cg, s1)"
    "processed s1 = processed s \<union> M"
    "duplicate_groups s1 = duplicate_groups s"
    unfolding M_def cg_def by auto
  define X where "X = (if 1 < card cg then [cg] else [])"
  define s2 where "s2 = \<lparr>duplicate_groups = duplicate_groups s1 @ X,
              processed = insert idx1 (processed s1),
              comparison_count = comparison_count s1, ui = ui s1\<rparr>"
  have step: "process_group tsr df th tot (idx1 # rest) s = process_group tsr df th tot rest s2"
    unfolding s2_def X_def by (rule process_group_step [OF nin il s1(1)])
  then have run2: "process_group tsr df th tot rest s2 = Inr s'"
    using Cons.prems(4) by simp
  from process_group_result [OF assms(1) rest_ok, of tsr th s2] obtain s'' new where r:
    "process_group tsr df th tot rest s2 = Inr s''"
    "duplicate_groups s'' = duplicate_groups s2 @ new"
    by (elim exE conjE) (rule that)
  from r(1) run2 have "s'' = s'" by simp
  with r(2) have "duplicate_groups s' = duplicate_groups s @ X @ new"
    using s1(3) by (simp add: s2_def)
  with Cons.prems(5) have X: "X = []" and new: "new = []" by simp_all
  have finM: "finite M" unfolding M_def by (rule finite_matched)
  have notM: "idx1 \<notin> M"
    using matched_subset [of tsr df th "df ! idx1" rest "processed s"] nrest
    unfolding M_def by auto
  have "\<not> 1 < card cg" using X unfolding X_def by (simp split: if_splits)
  then have "card M = 0" using finM notM unfolding cg_def by simp
  then have M: "M = {}" using finM by simp
  have c1: "comparison_count s1 = comparison_count s + length rest"
    using compare_rest_count_all [OF assms(1) rest_ok disj _ s1(1)] M unfolding M_def by simp
  have p2: "set rest \<inter> processed s2 = {}"
    using disj nrest s1(2) M by (simp add: s2_def)
  have d2: "duplicate_groups s' = duplicate_groups s2"
    using Cons.prems(5) s1(3) X by (simp add: s2_def)
  have "comparison_count s' = comparison_count s2 + (length rest * (length rest - 1)) div 2"
    by (rule Cons.IH [OF rest_ok drest p2 run2 d2])
  then show ?case unfolding tri using c1 by (simp add: s2_def)
qed

lemma process_groups_count_all:
  assumes "0 < tot" and "\<forall>g\<in>set gs. \<forall>i\<in>set g. i < length df"
    and "distinct (concat gs)" and "set (concat gs) \<inter> processed s = {}"
    and "process_groups tsr df th tot gs s = Inr s'"
    and "duplicate_groups s' = duplicate_groups s"
  shows "comparison_count s' =
           comparison_count s + sum_list (map (\<lambda>g. (length g * (length g - 1)) div 2) gs)"
  using assms(2-)
proof (induction gs arbitrary: s)
  case Nil
  then show ?case by simp
next
  case (Cons g gs)
  have g_ok: "\<forall>i\<in>set g. i < length df" and gs_ok: "\<forall>g\<in>set gs. \<forall>i\<in>set g. i < length df"
    using Cons.prems(1) by simp_all
  have dg: "distinct g" and dgs: "distinct (concat gs)"
    and dis: "set g \<inter> set (concat gs) = {}"
    using Cons.prems(2) by auto
  have pg: "set g \<inter> processed s = {}" and pgs: "set (concat gs) \<inter> processed s = {}"
    using Cons.prems(3) by auto
  from process_group_result [OF assms(1) g_ok, of tsr th s] obtain s1 new1 where a:
    "process_group tsr df th tot g s = Inr s1"
    "processed s1 = processed s \<union> set g"
    "duplicate_groups s1 = duplicate_groups s @ new1"
    by (elim exE conjE) (rule that)
  have run: "process_groups tsr df th tot gs s1 = Inr s'"
    using Cons.prems(4) a(1) by simp
  from process_groups_result [OF assms(1) gs_ok, of tsr th s1] obtain s'' new where r:
    "process_groups tsr df th tot gs s1 = Inr s''"
    "duplicate_groups s'' = duplicate_groups s1 @ new"
    by (elim exE conjE) (rule that)
  from r(1) run have "s'' = s'" by simp
  with r(2) a(3) have "duplicate_groups s' = duplicate_groups s @ new1 @ new" by simp
  with Cons.prems(5) have n1: "new1 = []" and n: "new = []" by simp_all
  have d1: "duplicate_groups s1 = duplicate_groups s" using a(3) n1 by simp
  have c1: "comparison_count s1 = comparison_count s + (length g * (length g - 1)) div 2"
    by (rule process_group_count_all [OF assms(1) g_ok dg pg a(1) d1])
  have p1: "set (concat gs) \<inter> processed s1 = {}"
    using a(2) pgs dis by auto
  have d': "duplicate_groups s' = duplicate_groups s1" using Cons.prems(5) d1 by simp
  have "comparison_count s' =
           comparison_count s1 + sum_list (map (\<lambda>g. (length g * (length g - 1)) div 2) gs)"
    by (rule Cons.IH [OF gs_ok dgs p1 run d'])
  then show ?case using c1 by simp
qed

lemma get_comparison_groups_disjoint:
  "distinct (concat (map snd (get_comparison_groups lower df k)))"
proof (rule distinct_concat)
  define G where "G = get_comparison_groups lower df k"
  have dk: "distinct (map fst G)" unfolding G_def by (rule get_comparison_groups_distinct)
  then have dG: "distinct G" by (simp add: distinct_map)
  have key: "k1 = k2" if "(k1, v1) \<in> set G" "(k2, v2) \<in> set G" "i \<in> set v1" "i \<in> set v2"
    for k1 k2 v1 v2 i
    using get_comparison_groups_index(3) [OF that(1) [unfolded G_def] that(3)]
      get_comparison_groups_index(3) [OF that(2) [unfolded G_def] that(4)] by simp
  have same: "v1 = v2" if "(k1, v1) \<in> set G" "(k1, v2) \<in> set G" for k1 v1 v2
    using get_comparison_groups_member(1) [OF that(1) [unfolded G_def]]
      get_comparison_groups_member(1) [OF that(2) [unfolded G_def]] by simp
  have ne: "v \<noteq> []" if "(k1, v) \<in> set G" for k1 v
    using get_comparison_groups_member(2) [OF that [unfolded G_def]] by auto
  have inj: "inj_on snd (set G)"
  proof (rule inj_onI)
    fix x y assume x: "x \<in> set G" and y: "y \<in> set G" and e: "snd x = snd y"
    obtain k1 v1 where x': "x = (k1, v1)" by (cases x)
    obtain k2 v2 where y': "y = (k2, v2)" by (cases y)
    from e x' y' have v: "v1 = v2" by simp
    from ne x x' obtain i where "i \<in> set v1" by (cases v1) auto
    with key [of k1 v1 k2 v2 i] x y x' y' v have "k1 = k2" by simp
    with v x' y' show "x = y" by simp
  qed
  show "distinct (map snd (get_comparison_groups lower df k))"
    using dG inj unfolding G_def [symmetric] by (simp add: distinct_map)
  show "distinct ys" if "ys \<in> set (map snd (get_comparison_groups lower df k))" for ys
  proof -
    from that obtain key where "(key, ys) \<in> set (get_comparison_groups lower df k)" by auto
    from get_comparison_groups_member(1) [OF this] have
      "ys = filter (\<lambda>i. k \<le> int (length (concat_row (df ! i))) \<and>
                          lower (slice_to (concat_row (df ! i)) k) = key) [0..<length df]" .
    moreover have "distinct (filter (\<lambda>i. k \<le> int (length (concat_row (df ! i))) \<and>
                          lower (slice_to (concat_row (df ! i)) k) = key) [0..<length df])"
      by simp
    ultimately show ?thesis by simp
  qed
  show "set ys \<inter> set zs = {}"
    if "ys \<in> set (map snd (get_comparison_groups lower df k))"
      "zs \<in> set (map snd (get_comparison_groups lower df k))" "ys \<noteq> zs" for ys zs
  proof -
    from that(1) obtain k1 where y: "(k1, ys) \<in> set G" unfolding G_def by auto
    from that(2) obtain k2 where z: "(k2, zs) \<in> set G" unfolding G_def by auto
    have "k1 \<noteq> k2" using same y z that(3) by blast
    then show ?thesis using key [OF y z] by blast
  qed
qed

text \<open>
  Claim C6 as stated fails. On four rows of one block, at threshold 0.9, the second row
  takes the third and the fourth into its cluster; their pair is never compared, and the
  run ends after five comparisons of the six that \<open>calculate_total_comparisons\<close> counts.
\<close>

theorem comparisons_fewer_than_total:
  "find_duplicates_run tsr4 ascii_lower df4 (9 / 10) 1 =
     Inr \<lparr>duplicate_groups = [{1, 2, 3}], processed = {0, 1, 2, 3}, comparison_count = 5,
          ui = [Progress 0, Progress 1, Complete]\<rparr> \<and>
   calculate_total_comparisons (get_comparison_groups ascii_lower df4 1) = 6"
  by code_simp

text \<open>
  Claim C6, amended. \<open>find_duplicates\<close> returns, and the number of comparisons it made is
  at most \<open>calculate_total_comparisons\<close> of the blocks, the sum of \<open>n * (n - 1) div 2\<close> over
  the block sizes \<open>n\<close>; the two are equal when no cluster is emitted.
\<close>

theorem comparison_count_bound:
  "\<exists>s. find_duplicates_run tsr lower df threshold leading_chars = Inr s \<and>
     comparison_count s \<le>
       calculate_total_comparisons (get_comparison_groups lower df leading_chars) \<and>
     (duplicate_groups s = [] \<longrightarrow>
        comparison_count s =
          calculate_total_comparisons (get_comparison_groups lower df leading_chars))"
proof -
  define G where "G = get_comparison_groups lower df leading_chars"
  from find_duplicates_run_result [of tsr lower df threshold leading_chars] obtain s where s:
    "find_duplicates_run tsr lower df threshold leading_chars = Inr s"
    "comparison_count s \<le>
       calculate_total_comparisons (get_comparison_groups lower df leading_chars)"
    by (elim exE conjE) (rule that)
  have E: "duplicate_groups s = [] \<longrightarrow> comparison_count s = calculate_total_comparisons G"
  proof
    assume empty: "duplicate_groups s = []"
    show "comparison_count s = calculate_total_comparisons G"
    proof (cases "G = []")
      case True
      then show ?thesis using s(1)
        by (auto simp: find_duplicates_run_def G_def calculate_total_comparisons_def)
    next
      case False
      define s0 where "s0 = \<lparr>duplicate_groups = [], processed = {}, comparison_count = 0,
                ui = [Progress 0]\<rparr>"
      have pos: "0 < calculate_total_comparisons G"
        unfolding G_def using False [unfolded G_def] by (rule total_comparisons_pos)
      have ok: "\<forall>g\<in>set (map snd G). \<forall>i\<in>set g. i < length df"
        unfolding G_def using get_comparison_groups_index(1) by fastforce
      from process_groups_result [OF pos ok, of tsr threshold s0] obtain s' where r:
        "process_groups tsr df threshold (calculate_total_comparisons G) (map snd G) s0 = Inr s'"
        by (elim exE conjE) (rule that)
      have "find_duplicates_run tsr lower df threshold leading_chars =
              Inr (s'\<lparr>ui := ui s' @ [Progress 1, Complete]\<rparr>)"
        using r by (simp add: find_duplicates_run_def G_def s0_def Let_def)
      with s(1) have ss: "s = s'\<lparr>ui := ui s' @ [Progress 1, Complete]\<rparr>" by simp
      have d: "duplicate_groups s' = duplicate_groups s0" using empty ss by (simp add: s0_def)
      have dist: "distinct (concat (map snd G))"
        unfolding G_def by (rule get_comparison_groups_disjoint)
      have p0: "set (concat (map snd G)) \<inter> processed s0 = {}" by (simp add: s0_def)
      have "comparison_count s' = comparison_count s0 +
              sum_list (map (\<lambda>g. (length g * (length g - 1)) div 2) (map snd G))"
        by (rule process_groups_count_all [OF pos ok dist p0 r d])
      then show ?thesis
        by (simp add: ss s0_def calculate_total_comparisons_sum)
    qed
  qed
  show ?thesis by (intro exI conjI) (rule s E [unfolded G_def])+
qed

theorem comparison_count_bound_witness:
  "find_duplicates_run tsr4 ascii_lower df6 2 1 =
     Inr \<lparr>duplicate_groups = [], processed = {0, 1, 2, 3, 4, 5}, comparison_count = 7,
          ui = [Progress 0, Progress 1, Complete]\<rparr> \<and>
   calculate_total_comparisons (get_comparison_groups ascii_lower df6 1) = 7"
proof -
  have ev: "find_duplicates_run tsr4 ascii_lower df6 2 1 =
     Inr \<lparr>duplicate_groups = [], processed = {0, 1, 2, 3, 4, 5}, comparison_count = 7,
          ui = [Progress 0, Progress 1, Complete]\<rparr>"
    by code_simp
  from comparison_count_bound [of tsr4 ascii_lower df6 2 1] obtain s where s:
    "find_duplicates_run tsr4 ascii_lower df6 2 1 = Inr s"
    "duplicate_groups s = [] \<longrightarrow>
        comparison_count s = calculate_total_comparisons (get_comparison_groups ascii_lower df6 1)"
    by (elim exE conjE) (rule that)
  from s(1) ev have eq: "s = \<lparr>duplicate_groups = [], processed = {0, 1, 2, 3, 4, 5},
          comparison_count = 7, ui = [Progress 0, Progress 1, Complete]\<rparr>" by simp
  have "calculate_total_comparisons (get_comparison_groups ascii_lower df6 1) = 7"
    using s(2) unfolding eq by simp
  with ev show ?thesis by (intro conjI)
qed

section \<open>Raising the threshold\<close>

lemma matched_similar:
  "matched tsr df th (df ! a) rest P = {i \<in> set rest. i \<notin> P \<and> similar tsr df th a i}"
  by (simp add: matched_def similar_def)

lemma process_group_partner:
  assumes "0 < tot" and "\<forall>i\<in>set grp. i < length df"
  shows "\<exists>s' new. process_group tsr df th tot grp s = Inr s' \<and>
           duplicate_groups s' = duplicate_groups s @ new \<and>
           (\<forall>c\<in>set new. \<forall>x\<in>c. \<exists>y\<in>set grp. y \<noteq> x \<and>
               (similar tsr df th x y \<or> similar tsr df th y x))"
  using assms(2)
proof (induction grp arbitrary: s)
  case Nil
  show ?case by simp
next
  case (Cons idx1 rest)
  have rest_ok: "\<forall>i\<in>set rest. i < length df" and il: "idx1 < length df"
    using Cons.prems by simp_all
  show ?case
  proof (cases "idx1 \<in> processed s")
    case True
    from Cons.IH [OF rest_ok, of s] obtain s' new where r:
      "process_group tsr df th tot rest s = Inr s'"
      "duplicate_groups s' = duplicate_groups s @ new"
      "\<forall>c\<in>set new. \<forall>x\<in>c. \<exists>y\<in>set rest. y \<noteq> x \<and>
               (similar tsr df th x y \<or> similar tsr df th y x)"
      by (elim exE conjE) (rule that)
    have run: "process_group tsr df th tot (idx1 # rest) s = Inr s'"
      using True r(1) by simp
    have N: "\<forall>c\<in>set new. \<forall>x\<in>c. \<exists>y\<in>set (idx1 # rest). y \<noteq> x \<and>
               (similar tsr df th x y \<or> similar tsr df th y x)"
      using r(3) by (meson list.set_intros(2))
    show ?thesis by (intro exI conjI) (rule run r(2) N)+
  next
    case False
    define M where "M = matched tsr df th (df ! idx1) rest (processed s)"
    define cg where "cg = insert idx1 M"
    from compare_rest_result [OF assms(1) rest_ok, of tsr th "df ! idx1" "{idx1}" s]
    obtain s1 where s1:
      "compare_rest tsr df th tot (df ! idx1) rest ({idx1}, s) = Inr (cg, s1)"
      "duplicate_groups s1 = duplicate_groups s"
      unfolding M_def cg_def by auto
    define X where "X = (if 1 < card cg then [cg] else [])"
    define s2 where "s2 = \<lparr>duplicate_groups = duplicate_groups s1 @ X,
              processed = insert idx1 (processed s1),
              comparison_count = comparison_count s1, ui = ui s1\<rparr>"
    have step: "process_group tsr df th tot (idx1 # rest) s = process_group tsr df th tot rest s2"
      unfolding s2_def X_def by (rule process_group_step [OF False il s1(1)])
    from Cons.IH [OF rest_ok, of s2] obtain s' new where r:
      "process_group tsr df th tot rest s2 = Inr s'"
      "duplicate_groups s' = duplicate_groups s2 @ new"
      "\<forall>c\<in>set new. \<forall>x\<in>c. \<exists>y\<in>set rest. y \<noteq> x \<and>
               (similar tsr df th x y \<or> similar tsr df th y x)"
      by (elim exE conjE) (rule that)
    have run: "process_group tsr df th tot (idx1 # rest) s = Inr s'"
      using step r(1) by simp
    have D: "duplicate_groups s' = duplicate_groups s @ (X @ new)"
      using r(2) s1(2) by (simp add: s2_def)
    have Mm: "m \<in> set rest \<and> similar tsr df th idx1 m" if "m \<in> M" for m
      using that unfolding M_def matched_similar by simp
    have cgp: "\<exists>y\<in>set (idx1 # rest). y \<noteq> x \<and>
               (similar tsr df th x y \<or> similar tsr df th y x)"
      if big: "1 < card cg" and x: "x \<in> cg" for x
    proof (cases "x = idx1")
      case True
      have "\<exists>m\<in>M. m \<noteq> idx1"
      proof (rule ccontr)
        assume "\<not> (\<exists>m\<in>M. m \<noteq> idx1)"
        then have "cg = {idx1}" unfolding cg_def by auto
        with big show False by simp
      qed
      then obtain m where "m \<in> M" "m \<noteq> idx1" by blast
      with Mm [of m] True show ?thesis by auto
    next
      case False
      with x have "x \<in> M" unfolding cg_def by simp
      with Mm [of x] False show ?thesis by auto
    qed
    have N: "\<forall>c\<in>set (X @ new). \<forall>x\<in>c. \<exists>y\<in>set (idx1 # rest). y \<noteq> x \<and>
               (similar tsr df th x y \<or> similar tsr df th y x)"
    proof (intro ballI)
      fix c x assume c: "c \<in> set (X @ new)" and x: "x \<in> c"
      from c consider "c \<in> set X" | "c \<in> set new" by auto
      then show "\<exists>y\<in>set (idx1 # rest). y \<noteq> x \<and>
               (similar tsr df th x y \<or> similar tsr df th y x)"
      proof cases
        case 1
        then have "c = cg" "1 < card cg" unfolding X_def by (simp_all split: if_splits)
        with cgp x show ?thesis by simp
      next
        case 2
        with r(3) x have "\<exists>y\<in>set rest. y \<noteq> x \<and>
               (similar tsr df th x y \<or> similar tsr df th y x)" by blast
        then show ?thesis by (meson list.set_intros(2))
      qed
    qed
    show ?thesis by (intro exI conjI) (rule run D N)+
  qed
qed

lemma process_groups_partner:
  assumes "0 < tot" and "\<forall>g\<in>set gs. \<forall>i\<in>set g. i < length df"
  shows "\<exists>s' new. process_groups tsr df th tot gs s = Inr s' \<and>
           duplicate_groups s' = duplicate_groups s @ new \<and>
           (\<forall>c\<in>set new. \<forall>x\<in>c. \<exists>g\<in>set gs. x \<in> set g \<and> (\<exists>y\<in>set g. y \<noteq> x \<and>
               (similar tsr df th x y \<or> similar tsr df th y x)))"
  using assms(2)
proof (induction gs arbitrary: s)
  case Nil
  show ?case by simp
next
  case (Cons g gs)
  have g_ok: "\<forall>i\<in>set g. i < length df" and gs_ok: "\<forall>g\<in>set gs. \<forall>i\<in>set g. i < length df"
    using Cons.prems by simp_all
  from process_group_partner [OF assms(1) g_ok, of tsr th s] obtain s1 new1 where a:
    "process_group tsr df th tot g s = Inr s1"
    "duplicate_groups s1 = duplicate_groups s @ new1"
    "\<forall>c\<in>set new1. \<forall>x\<in>c. \<exists>y\<in>set g. y \<noteq> x \<and>
               (similar tsr df th x y \<or> similar tsr df th y x)"
    by (elim exE conjE) (rule that)
  from process_group_result [OF assms(1) g_ok, of tsr th s] obtain s1' new1' where b:
    "process_group tsr df th tot g s = Inr s1'"
    "duplicate_groups s1' = duplicate_groups s @ new1'"
    "\<forall>c\<in>set new1'. c \<subseteq> set g \<and> c \<inter> processed s = {} \<and> 2 \<le> card c"
    by (elim exE conjE) (rule that)
  from a(1) b(1) have "s1' = s1" by simp
  with a(2) b(2) have "new1' = new1" by simp
  with b(3) have sub: "\<forall>c\<in>set new1. c \<subseteq> set g" by simp
  from Cons.IH [OF gs_ok, of s1] obtain s' new where r:
    "process_groups tsr df th tot gs s1 = Inr s'"
    "duplicate_groups s' = duplicate_groups s1 @ new"
    "\<forall>c\<in>set new. \<forall>x\<in>c. \<exists>g\<in>set gs. x \<in> set g \<and> (\<exists>y\<in>set g. y \<noteq> x \<and>
               (similar tsr df th x y \<or> similar tsr df th y x))"
    by (elim exE conjE) (rule that)
  have run: "process_groups tsr df th tot (g # gs) s = Inr s'"
    using a(1) r(1) by simp
  have D: "duplicate_groups s' = duplicate_groups s @ (new1 @ new)"
    using r(2) a(2) by simp
  have N: "\<forall>c\<in>set (new1 @ new). \<forall>x\<in>c. \<exists>g'\<in>set (g # gs). x \<in> set g' \<and>
             (\<exists>y\<in>set g'. y \<noteq> x \<and> (similar tsr df th x y \<or> similar tsr df th y x))"
  proof (intro ballI)
    fix c x assume c: "c \<in> set (new1 @ new)" and x: "x \<in> c"
    from c consider "c \<in> set new1" | "c \<in> set new" by auto
    then show "\<exists>g'\<in>set (g # gs). x \<in> set g' \<and>
             (\<exists>y\<in>set g'. y \<noteq> x \<and> (similar tsr df th x y \<or> similar tsr df th y x))"
    proof cases
      case 1
      with a(3) sub x have "x \<in> set g" "\<exists>y\<in>set g. y \<noteq> x \<and>
               (similar tsr df th x y \<or> similar tsr df th y x)" by blast+
      then show ?thesis by simp
    next
      case 2
      with r(3) x have "\<exists>g\<in>set gs. x \<in> set g \<and> (\<exists>y\<in>set g. y \<noteq> x \<and>
               (similar tsr df th x y \<or> similar tsr df th y x))" by blast
      then show ?thesis by (meson list.set_intros(2))
    qed
  qed
  show ?case by (intro exI conjI) (rule run D N)+
qed

lemma process_group_covers:
  assumes "0 < tot" and "\<forall>i\<in>set grp. i < length df" and "distinct grp"
    and "\<forall>i\<in>set grp. \<forall>j\<in>set grp. similar tsr df th i j \<longrightarrow> similar tsr df th j i"
    and "\<forall>i\<in>set grp. \<forall>j\<in>set grp. \<forall>l\<in>set grp.
           similar tsr df th i j \<longrightarrow> similar tsr df th j l \<longrightarrow> similar tsr df th i l"
    and "\<forall>x\<in>set grp. x \<in> processed s \<longrightarrow>
           (\<forall>y\<in>set grp. similar tsr df th x y \<longrightarrow> y \<in> processed s)"
  shows "\<exists>s' new. process_group tsr df th tot grp s = Inr s' \<and>
           duplicate_groups s' = duplicate_groups s @ new \<and>
           (\<forall>x\<in>set grp. x \<notin> processed s \<longrightarrow>
              (\<exists>y\<in>set grp. y \<noteq> x \<and> similar tsr df th x y) \<longrightarrow> x \<in> \<Union>(set new))"
  using assms(2-)
proof (induction grp arbitrary: s)
  case Nil
  show ?case by simp
next
  case (Cons a rest)
  have rest_ok: "\<forall>i\<in>set rest. i < length df" and il: "a < length df"
    using Cons.prems(1) by simp_all
  have drest: "distinct rest" and nrest: "a \<notin> set rest" using Cons.prems(2) by simp_all
  have sim_sym: "similar tsr df th j i"
    if "i \<in> set (a # rest)" "j \<in> set (a # rest)" "similar tsr df th i j" for i j
    by (rule Cons.prems(3) [rule_format, OF that])
  have sim_trans: "similar tsr df th i l"
    if "i \<in> set (a # rest)" "j \<in> set (a # rest)" "l \<in> set (a # rest)"
      "similar tsr df th i j" "similar tsr df th j l" for i j l
    by (rule Cons.prems(4) [rule_format, OF that])
  have sim_closed: "y \<in> processed s"
    if "x \<in> set (a # rest)" "x \<in> processed s" "y \<in> set (a # rest)" "similar tsr df th x y"
    for x y
    by (rule Cons.prems(5) [rule_format, OF that])
  have up: "i \<in> set (a # rest)" if "i \<in> set rest" for i using that by simp
  have sym': "\<forall>i\<in>set rest. \<forall>j\<in>set rest. similar tsr df th i j \<longrightarrow> similar tsr df th j i"
  proof (intro ballI impI)
    fix i j assume "i \<in> set rest" "j \<in> set rest" "similar tsr df th i j"
    then show "similar tsr df th j i" by (rule sim_sym [OF up up])
  qed
  have trans': "\<forall>i\<in>set rest. \<forall>j\<in>set rest. \<forall>l\<in>set rest.
           similar tsr df th i j \<longrightarrow> similar tsr df th j l \<longrightarrow> similar tsr df th i l"
  proof (intro ballI impI)
    fix i j l assume "i \<in> set rest" "j \<in> set rest" "l \<in> set rest"
      "similar tsr df th i j" "similar tsr df th j l"
    then show "similar tsr df th i l" by (rule sim_trans [OF up up up])
  qed
  show ?case
  proof (cases "a \<in> processed s")
    case True
    have closed': "\<forall>x\<in>set rest. x \<in> processed s \<longrightarrow>
           (\<forall>y\<in>set rest. similar tsr df th x y \<longrightarrow> y \<in> processed s)"
    proof (intro ballI impI)
      fix x y assume "x \<in> set rest" "x \<in> processed s" "y \<in> set rest" "similar tsr df th x y"
      then show "y \<in> processed s" by (rule sim_closed [OF up _ up])
    qed
    from Cons.IH [OF rest_ok drest sym' trans' closed'] obtain s' new where r:
      "process_group tsr df th tot rest s = Inr s'"
      "duplicate_groups s' = duplicate_groups s @ new"
      "\<forall>x\<in>set rest. x \<notin> processed s \<longrightarrow>
              (\<exists>y\<in>set rest. y \<noteq> x \<and> similar tsr df th x y) \<longrightarrow> x \<in> \<Union>(set new)"
      by (elim exE conjE) (rule that)
    have run: "process_group tsr df th tot (a # rest) s = Inr s'"
      using True r(1) by simp
    have N: "\<forall>x\<in>set (a # rest). x \<notin> processed s \<longrightarrow>
              (\<exists>y\<in>set (a # rest). y \<noteq> x \<and> similar tsr df th x y) \<longrightarrow> x \<in> \<Union>(set new)"
    proof (intro ballI impI)
      fix x assume x: "x \<in> set (a # rest)" and xn: "x \<notin> processed s"
        and "\<exists>y\<in>set (a # rest). y \<noteq> x \<and> similar tsr df th x y"
      then obtain y where y: "y \<in> set (a # rest)" "y \<noteq> x" "similar tsr df th x y" by blast
      from x xn True have xr: "x \<in> set rest" by auto
      have "y \<noteq> a"
      proof
        assume "y = a"
        with sim_sym [OF x y(1) y(3)] have "similar tsr df th a x" by simp
        from sim_closed [OF _ True x this] have "x \<in> processed s" by simp
        with xn show False ..
      qed
      with y(1) have "y \<in> set rest" by simp
      with r(3) xr xn y(2,3) show "x \<in> \<Union>(set new)" by blast
    qed
    show ?thesis by (intro exI conjI) (rule run r(2) N)+
  next
    case False
    define M where "M = matched tsr df th (df ! a) rest (processed s)"
    define cg where "cg = insert a M"
    from compare_rest_result [OF assms(1) rest_ok, of tsr th "df ! a" "{a}" s]
    obtain s1 where s1:
      "compare_rest tsr df th tot (df ! a) rest ({a}, s) = Inr (cg, s1)"
      "processed s1 = processed s \<union> M"
      "duplicate_groups s1 = duplicate_groups s"
      unfolding M_def cg_def by auto
    define X where "X = (if 1 < card cg then [cg] else [])"
    define s2 where "s2 = \<lparr>duplicate_groups = duplicate_groups s1 @ X,
              processed = insert a (processed s1),
              comparison_count = comparison_count s1, ui = ui s1\<rparr>"
    have step: "process_group tsr df th tot (a # rest) s = process_group tsr df th tot rest s2"
      unfolding s2_def X_def by (rule process_group_step [OF False il s1(1)])
    have p2: "processed s2 = insert a (processed s \<union> M)" using s1(2) by (simp add: s2_def)
    have Mdef: "m \<in> M \<longleftrightarrow> m \<in> set rest \<and> m \<notin> processed s \<and> similar tsr df th a m" for m
      unfolding M_def matched_similar by simp
    have finM: "finite M" unfolding M_def by (rule finite_matched)
    have notM: "a \<notin> M" using Mdef nrest by simp
    have Xcg: "X = [cg]" if "M \<noteq> {}"
    proof -
      from that finM have "0 < card M" by (simp add: card_gt_0_iff)
      then have "1 < card cg" unfolding cg_def using finM notM by simp
      then show ?thesis unfolding X_def by simp
    qed
    have closed2: "\<forall>x\<in>set rest. x \<in> processed s2 \<longrightarrow>
           (\<forall>y\<in>set rest. similar tsr df th x y \<longrightarrow> y \<in> processed s2)"
    proof (intro ballI impI)
      fix x y assume x: "x \<in> set rest" and xp: "x \<in> processed s2"
        and y: "y \<in> set rest" and xy: "similar tsr df th x y"
      from x nrest have "x \<noteq> a" by auto
      with xp p2 consider "x \<in> processed s" | "x \<in> M" by auto
      then show "y \<in> processed s2"
      proof cases
        case 1
        from sim_closed [OF _ 1 _ xy] x y have "y \<in> processed s" by simp
        then show ?thesis using p2 by simp
      next
        case 2
        then have "similar tsr df th a x" using Mdef by simp
        from sim_trans [OF _ _ _ this xy] x y have "similar tsr df th a y" by simp
        with y have "y \<in> processed s \<or> y \<in> M" using Mdef by blast
        then show ?thesis using p2 by auto
      qed
    qed
    from Cons.IH [OF rest_ok drest sym' trans' closed2] obtain s' new where r:
      "process_group tsr df th tot rest s2 = Inr s'"
      "duplicate_groups s' = duplicate_groups s2 @ new"
      "\<forall>x\<in>set rest. x \<notin> processed s2 \<longrightarrow>
              (\<exists>y\<in>set rest. y \<noteq> x \<and> similar tsr df th x y) \<longrightarrow> x \<in> \<Union>(set new)"
      by (elim exE conjE) (rule that)
    have run: "process_group tsr df th tot (a # rest) s = Inr s'"
      using step r(1) by simp
    have D: "duplicate_groups s' = duplicate_groups s @ (X @ new)"
      using r(2) s1(3) by (simp add: s2_def)
    have N: "\<forall>x\<in>set (a # rest). x \<notin> processed s \<longrightarrow>
              (\<exists>y\<in>set (a # rest). y \<noteq> x \<and> similar tsr df th x y) \<longrightarrow>
              x \<in> \<Union>(set (X @ new))"
    proof (intro ballI impI)
      fix x assume x: "x \<in> set (a # rest)" and xn: "x \<notin> processed s"
        and "\<exists>y\<in>set (a # rest). y \<noteq> x \<and> similar tsr df th x y"
      then obtain y where y: "y \<in> set (a # rest)" "y \<noteq> x" "similar tsr df th x y" by blast
      consider "x = a" | "x \<in> M" | "x \<in> set rest" "x \<notin> M" "x \<noteq> a" using x by auto
      then show "x \<in> \<Union>(set (X @ new))"
      proof cases
        case 1
        with y have yr: "y \<in> set rest" and ay: "similar tsr df th a y" by auto
        have "y \<notin> processed s"
        proof
          assume yp: "y \<in> processed s"
          from sim_sym [OF _ y(1) ay] have "similar tsr df th y a" by simp
          from sim_closed [OF y(1) yp _ this] have "a \<in> processed s" by simp
          with False show False ..
        qed
        with yr ay have "y \<in> M" using Mdef by simp
        then have "M \<noteq> {}" by auto
        then have "X = [cg]" by (rule Xcg)
        then show ?thesis using 1 by (simp add: cg_def)
      next
        case 2
        then have "M \<noteq> {}" by auto
        then have "X = [cg]" by (rule Xcg)
        then show ?thesis using 2 by (simp add: cg_def)
      next
        case 3
        have "y \<noteq> a"
        proof
          assume "y = a"
          with sim_sym [OF x y(1) y(3)] have "similar tsr df th a x" by simp
          with 3(1) xn have "x \<in> M" using Mdef by simp
          with 3(2) show False ..
        qed
        with y(1) have yr: "y \<in> set rest" by simp
        have "x \<notin> processed s2" using p2 3 xn by simp
        with r(3) 3(1) yr y(2,3) have "x \<in> \<Union>(set new)" by blast
        then show ?thesis by simp
      qed
    qed
    show ?thesis by (intro exI conjI) (rule run D N)+
  qed
qed

lemma process_groups_covers:
  assumes "0 < tot" and "\<forall>g\<in>set gs. \<forall>i\<in>set g. i < length df"
    and "distinct (concat gs)" and "set (concat gs) \<inter> processed s = {}"
    and "\<forall>g\<in>set gs. \<forall>i\<in>set g. \<forall>j\<in>set g.
          (similar tsr df th i j \<longrightarrow> similar tsr df th j i) \<and>
          (\<forall>l\<in>set g. similar tsr df th i j \<longrightarrow> similar tsr df th j l \<longrightarrow>
                       similar tsr df th i l)"
  shows "\<exists>s' new. process_groups tsr df th tot gs s = Inr s' \<and>
           duplicate_groups s' = duplicate_groups s @ new \<and>
           (\<forall>g\<in>set gs. \<forall>x\<in>set g.
              (\<exists>y\<in>set g. y \<noteq> x \<and> similar tsr df th x y) \<longrightarrow> x \<in> \<Union>(set new))"
  using assms(2-)
proof (induction gs arbitrary: s)
  case Nil
  show ?case by simp
next
  case (Cons g gs)
  have g_ok: "\<forall>i\<in>set g. i < length df" and gs_ok: "\<forall>g\<in>set gs. \<forall>i\<in>set g. i < length df"
    using Cons.prems(1) by simp_all
  have dg: "distinct g" and dgs: "distinct (concat gs)"
    and dis: "set g \<inter> set (concat gs) = {}"
    using Cons.prems(2) by auto
  have pg: "set g \<inter> processed s = {}" and pgs: "set (concat gs) \<inter> processed s = {}"
    using Cons.prems(3) by auto
  have here: "g \<in> set (g # gs)" by simp
  have later: "g' \<in> set (g # gs)" if "g' \<in> set gs" for g' using that by simp
  note eqv = Cons.prems(4) [rule_format]
  have sym_g: "\<forall>i\<in>set g. \<forall>j\<in>set g. similar tsr df th i j \<longrightarrow> similar tsr df th j i"
  proof (intro ballI impI)
    fix i j assume "i \<in> set g" "j \<in> set g" "similar tsr df th i j"
    with eqv [OF here, of i j, THEN conjunct1] show "similar tsr df th j i" by simp
  qed
  have trans_g: "\<forall>i\<in>set g. \<forall>j\<in>set g. \<forall>l\<in>set g.
           similar tsr df th i j \<longrightarrow> similar tsr df th j l \<longrightarrow> similar tsr df th i l"
  proof (intro ballI impI)
    fix i j l assume ij: "i \<in> set g" "j \<in> set g" and l: "l \<in> set g"
      and s: "similar tsr df th i j" "similar tsr df th j l"
    from eqv [OF here ij, THEN conjunct2] l s show "similar tsr df th i l" by simp
  qed
  have closed_g: "\<forall>x\<in>set g. x \<in> processed s \<longrightarrow>
           (\<forall>y\<in>set g. similar tsr df th x y \<longrightarrow> y \<in> processed s)"
    using pg by auto
  have eqv_gs: "\<forall>g\<in>set gs. \<forall>i\<in>set g. \<forall>j\<in>set g.
          (similar tsr df th i j \<longrightarrow> similar tsr df th j i) \<and>
          (\<forall>l\<in>set g. similar tsr df th i j \<longrightarrow> similar tsr df th j l \<longrightarrow>
                       similar tsr df th i l)"
  proof (intro ballI)
    fix g' i j assume "g' \<in> set gs" "i \<in> set g'" "j \<in> set g'"
    then show "(similar tsr df th i j \<longrightarrow> similar tsr df th j i) \<and>
          (\<forall>l\<in>set g'. similar tsr df th i j \<longrightarrow> similar tsr df th j l \<longrightarrow>
                       similar tsr df th i l)"
      by (rule Cons.prems(4) [rule_format, OF later])
  qed
  from process_group_covers [OF assms(1) g_ok dg sym_g trans_g closed_g] obtain s1 new1 where a:
    "process_group tsr df th tot g s = Inr s1"
    "duplicate_groups s1 = duplicate_groups s @ new1"
    "\<forall>x\<in>set g. x \<notin> processed s \<longrightarrow>
              (\<exists>y\<in>set g. y \<noteq> x \<and> similar tsr df th x y) \<longrightarrow> x \<in> \<Union>(set new1)"
    by (elim exE conjE) (rule that)
  from process_group_result [OF assms(1) g_ok, of tsr th s] obtain s1' where b:
    "process_group tsr df th tot g s = Inr s1'"
    "processed s1' = processed s \<union> set g"
    by (elim exE conjE) (rule that)
  from a(1) b(1) have "s1' = s1" by simp
  with b(2) have p1: "processed s1 = processed s \<union> set g" by simp
  have pgs1: "set (concat gs) \<inter> processed s1 = {}" using p1 pgs dis by auto
  from Cons.IH [OF gs_ok dgs pgs1 eqv_gs] obtain s' new where r:
    "process_groups tsr df th tot gs s1 = Inr s'"
    "duplicate_groups s' = duplicate_groups s1 @ new"
    "\<forall>g\<in>set gs. \<forall>x\<in>set g.
              (\<exists>y\<in>set g. y \<noteq> x \<and> similar tsr df th x y) \<longrightarrow> x \<in> \<Union>(set new)"
    by (elim exE conjE) (rule that)
  have run: "process_groups tsr df th tot (g # gs) s = Inr s'"
    using a(1) r(1) by simp
  have D: "duplicate_groups s' = duplicate_groups s @ (new1 @ new)"
    using r(2) a(2) by simp
  have N: "\<forall>g'\<in>set (g # gs). \<forall>x\<in>set g'.
              (\<exists>y\<in>set g'. y \<noteq> x \<and> similar tsr df th x y) \<longrightarrow> x \<in> \<Union>(set (new1 @ new))"
  proof (intro ballI impI)
    fix g' x assume g': "g' \<in> set (g # gs)" and x: "x \<in> set g'"
      and y: "\<exists>y\<in>set g'. y \<noteq> x \<and> similar tsr df th x y"
    from g' consider "g' = g" | "g' \<in> set gs" by auto
    then show "x \<in> \<Union>(set (new1 @ new))"
    proof cases
      case 1
      with x pg have "x \<in> set g" "x \<notin> processed s" by auto
      with a(3) y 1 have "x \<in> \<Union>(set new1)" by blast
      then show ?thesis by simp
    next
      case 2
      with r(3) x y have "x \<in> \<Union>(set new)" by blast
      then show ?thesis by simp
    qed
  qed
  show ?case by (intro exI conjI) (rule run D N)+
qed

lemma find_duplicates_no_groups:
  assumes "get_comparison_groups lower df k = []"
  shows "find_duplicates tsr lower df th k = Inr []"
  using assms by (simp add: find_duplicates_def find_duplicates_run_def)

lemma find_duplicates_groups:
  assumes "get_comparison_groups lower df k \<noteq> []"
    and "process_groups tsr df th (calculate_total_comparisons (get_comparison_groups lower df k))
           (map snd (get_comparison_groups lower df k))
           \<lparr>duplicate_groups = [], processed = {}, comparison_count = 0, ui = [Progress 0]\<rparr> =
         Inr s'"
  shows "find_duplicates tsr lower df th k = Inr (duplicate_groups s')"
  using assms(2) by (simp add: find_duplicates_def find_duplicates_run_def Let_def)

lemma similar_mono: "t1 \<le> t2 \<Longrightarrow> similar tsr df t2 i j \<Longrightarrow> similar tsr df t1 i j"
  by (simp add: similar_def)

text \<open>
  Claim C4 as stated fails. The rows \<^verbatim>\<open>ab\<close>, \<^verbatim>\<open>a\<close>, \<^verbatim>\<open>a xxxx\<close>, \<^verbatim>\<open>a yyyy\<close> are one block. At
  threshold 0.5 the first row takes the second (score 0.67) and the last two stay apart
  (0.33): two rows are flagged. At threshold 0.9 the first row takes none, so the second
  is an anchor and takes the last two (1.0 each): three rows are flagged.
\<close>

theorem higher_threshold_flags_more:
  "(0 :: real) \<le> 1 / 2 \<and> (1 / 2 :: real) \<le> 9 / 10 \<and> (9 / 10 :: real) \<le> 1 \<and>
   find_duplicates tsr4 ascii_lower df4 (1 / 2) 1 = Inr [{0, 1}] \<and>
   find_duplicates tsr4 ascii_lower df4 (9 / 10) 1 = Inr [{1, 2, 3}] \<and>
   card (flagged [{0, 1}]) = 2 \<and> card (flagged [{1, 2, 3}]) = 3"
  by code_simp

text \<open>
  Claim C4, amended. When within every block the test \<open>similarity \<ge> t1\<close> is symmetric and
  transitive, every row flagged at a threshold \<open>t2 \<ge> t1\<close> is flagged at \<open>t1\<close>, so that raising
  the threshold from \<open>t1\<close> to \<open>t2\<close> does not increase the number of flagged rows.
\<close>

theorem flagged_monotone:
  assumes "t1 \<le> t2" and "equivalence_in_blocks tsr lower df t1 leading_chars"
  shows "\<exists>d1 d2. find_duplicates tsr lower df t1 leading_chars = Inr d1 \<and>
           find_duplicates tsr lower df t2 leading_chars = Inr d2 \<and>
           flagged d2 \<subseteq> flagged d1 \<and> card (flagged d2) \<le> card (flagged d1)"
proof (cases "get_comparison_groups lower df leading_chars = []")
  case True
  have r1: "find_duplicates tsr lower df t1 leading_chars = Inr []"
    and r2: "find_duplicates tsr lower df t2 leading_chars = Inr []"
    using True by (rule find_duplicates_no_groups)+
  have S: "flagged [] \<subseteq> flagged ([] :: nat set list)"
    and C: "card (flagged ([] :: nat set list)) \<le> card (flagged ([] :: nat set list))"
    by simp_all
  show ?thesis by (intro exI conjI) (rule r1 r2 S C)+
next
  case False
  define G where "G = get_comparison_groups lower df leading_chars"
  define s0 where "s0 = \<lparr>duplicate_groups = [], processed = {}, comparison_count = 0,
                ui = [Progress 0]\<rparr>"
  have pos: "0 < calculate_total_comparisons G"
    unfolding G_def using False by (rule total_comparisons_pos)
  have ok: "\<forall>g\<in>set (map snd G). \<forall>i\<in>set g. i < length df"
    unfolding G_def using get_comparison_groups_index(1) by fastforce
  have dist: "distinct (concat (map snd G))"
    unfolding G_def by (rule get_comparison_groups_disjoint)
  have p0: "set (concat (map snd G)) \<inter> processed s0 = {}" by (simp add: s0_def)
  have eqv: "\<forall>g\<in>set (map snd G). \<forall>i\<in>set g. \<forall>j\<in>set g.
          (similar tsr df t1 i j \<longrightarrow> similar tsr df t1 j i) \<and>
          (\<forall>l\<in>set g. similar tsr df t1 i j \<longrightarrow> similar tsr df t1 j l \<longrightarrow>
                       similar tsr df t1 i l)"
    using assms(2) unfolding equivalence_in_blocks_def G_def .
  from process_groups_covers [OF pos ok dist p0 eqv] obtain s1 new1 where a:
    "process_groups tsr df t1 (calculate_total_comparisons G) (map snd G) s0 = Inr s1"
    "duplicate_groups s1 = duplicate_groups s0 @ new1"
    "\<forall>g\<in>set (map snd G). \<forall>x\<in>set g.
              (\<exists>y\<in>set g. y \<noteq> x \<and> similar tsr df t1 x y) \<longrightarrow> x \<in> \<Union>(set new1)"
    by (elim exE conjE) (rule that)
  from process_groups_partner [OF pos ok, of tsr t2 s0] obtain s2 new2 where b:
    "process_groups tsr df t2 (calculate_total_comparisons G) (map snd G) s0 = Inr s2"
    "duplicate_groups s2 = duplicate_groups s0 @ new2"
    "\<forall>c\<in>set new2. \<forall>x\<in>c. \<exists>g\<in>set (map snd G). x \<in> set g \<and> (\<exists>y\<in>set g. y \<noteq> x \<and>
               (similar tsr df t2 x y \<or> similar tsr df t2 y x))"
    by (elim exE conjE) (rule that)
  from process_groups_result [OF pos ok, of tsr t1 s0] obtain s1' new1' where c:
    "process_groups tsr df t1 (calculate_total_comparisons G) (map snd G) s0 = Inr s1'"
    "duplicate_groups s1' = duplicate_groups s0 @ new1'"
    "\<forall>c\<in>set new1'. (\<exists>g\<in>set (map snd G). c \<subseteq> set g) \<and> c \<inter> processed s0 = {} \<and> 2 \<le> card c"
    by (elim exE conjE) (rule that)
  from a(1) c(1) have "s1' = s1" by simp
  with a(2) c(2) have "new1' = new1" by simp
  with c(3) have big: "\<forall>c\<in>set new1. 2 \<le> card c" by simp
  have d1: "duplicate_groups s1 = new1" using a(2) by (simp add: s0_def)
  have d2: "duplicate_groups s2 = new2" using b(2) by (simp add: s0_def)
  have r1: "find_duplicates tsr lower df t1 leading_chars = Inr new1"
    using find_duplicates_groups [OF False a(1) [unfolded G_def s0_def]] d1 by simp
  have r2: "find_duplicates tsr lower df t2 leading_chars = Inr new2"
    using find_duplicates_groups [OF False b(1) [unfolded G_def s0_def]] d2 by simp
  have S: "flagged new2 \<subseteq> flagged new1"
  proof
    fix x assume "x \<in> flagged new2"
    then obtain c where "c \<in> set new2" "x \<in> c" unfolding flagged_def by blast
    with b(3) obtain g y where g: "g \<in> set (map snd G)" and x: "x \<in> set g"
      and y: "y \<in> set g" "y \<noteq> x"
      and xy: "similar tsr df t2 x y \<or> similar tsr df t2 y x" by blast
    from xy have "similar tsr df t1 x y \<or> similar tsr df t1 y x"
      using similar_mono [OF assms(1)] by blast
    then have "similar tsr df t1 x y"
    proof
      assume "similar tsr df t1 x y"
      then show ?thesis .
    next
      assume "similar tsr df t1 y x"
      with eqv [rule_format, OF g y(1) x, THEN conjunct1] show ?thesis by simp
    qed
    with a(3) g x y have "x \<in> \<Union>(set new1)" by blast
    then show "x \<in> flagged new1" unfolding flagged_def .
  qed
  have fin: "finite (flagged new1)"
    unfolding flagged_def
  proof (rule finite_Union)
    show "finite (set new1)" by simp
    fix c assume "c \<in> set new1"
    with big have "0 < card c" by fastforce
    then show "finite c" by (rule card_ge_0_finite)
  qed
  have C: "card (flagged new2) \<le> card (flagged new1)"
    using fin S by (rule card_mono)
  show ?thesis by (intro exI conjI) (rule r1 r2 S C)+
qed

theorem flagged_monotone_witness:
  "(1 / 2 :: real) \<le> 9 / 10 \<and> equivalence_in_blocks tsr4 ascii_lower df3 (1 / 2) 1 \<and>
   find_duplicates tsr4 ascii_lower df3 (1 / 2) 1 = Inr [{0, 1, 2}] \<and>
   find_duplicates tsr4 ascii_lower df3 (9 / 10) 1 = Inr [{0, 1}] \<and>
   flagged [{0, 1}] \<subseteq> flagged [{0, 1, 2 :: nat}] \<and>
   card (flagged [{0, 1 :: nat}]) \<le> card (flagged [{0, 1, 2 :: nat}])"
proof -
  have h1: "(1 / 2 :: real) \<le> 9 / 10" by simp
  have h2: "equivalence_in_blocks tsr4 ascii_lower df3 (1 / 2) 1" by code_simp
  have e1: "find_duplicates tsr4 ascii_lower df3 (1 / 2) 1 = Inr [{0, 1, 2}]" by code_simp
  have e2: "find_duplicates tsr4 ascii_lower df3 (9 / 10) 1 = Inr [{0, 1}]" by code_simp
  from flagged_monotone [OF h1 h2] obtain d1 d2 where d:
    "find_duplicates tsr4 ascii_lower df3 (1 / 2) 1 = Inr d1"
    "find_duplicates tsr4 ascii_lower df3 (9 / 10) 1 = Inr d2"
    "flagged d2 \<subseteq> flagged d1" "card (flagged d2) \<le> card (flagged d1)"
    by (elim exE conjE) (rule that)
  from d(1) e1 have q1: "d1 = [{0, 1, 2}]" by simp
  from d(2) e2 have q2: "d2 = [{0, 1}]" by simp
  note w1 = d(3) [unfolded q1 q2] and w2 = d(4) [unfolded q1 q2]
  show ?thesis by (rule h1 h2 e1 e2 w1 w2 conjI)+
qed

section \<open>The similarity scorer and the score of the library\<close>

text \<open>
  \<open>calculate_similarity\<close> builds the two texts in the same way and divides the library's
  score by 100, so what it returns on two rows is decided by what \<^verbatim>\<open>token_set_ratio\<close>
  returns on their texts: it is symmetric where the score is, 1 on a row and itself where
  the score is 100, in \<open>[0, 1]\<close> where the score is in \<open>[0, 100]\<close>, and on two rows without
  any value it is the score of two empty texts. A row without any value has an empty
  text and is in no block when \<open>leading_chars \<ge> 1\<close>.
\<close>

lemma present_all_missing: "\<forall>c\<in>set r. c = NA \<Longrightarrow> present r = []"
  by (induction r rule: present.induct) simp_all

lemma concat_row_all_missing: "\<forall>c\<in>set r. c = NA \<Longrightarrow> concat_row r = []"
  by (simp add: concat_row_def present_all_missing)

lemma calculate_similarity_swap:
  "tsr (concat_row a) (concat_row b) = tsr (concat_row b) (concat_row a) \<Longrightarrow>
   calculate_similarity tsr a b = calculate_similarity tsr b a"
  by (simp add: calculate_similarity_def)

lemma calculate_similarity_self:
  "calculate_similarity tsr r r = 1 \<longleftrightarrow> tsr (concat_row r) (concat_row r) = 100"
  by (simp add: calculate_similarity_def)

lemma calculate_similarity_range:
  "0 \<le> calculate_similarity tsr a b \<and> calculate_similarity tsr a b \<le> 1 \<longleftrightarrow>
   0 \<le> tsr (concat_row a) (concat_row b) \<and> tsr (concat_row a) (concat_row b) \<le> 100"
  by (simp add: calculate_similarity_def)

lemma calculate_similarity_all_missing:
  "\<forall>c\<in>set a. c = NA \<Longrightarrow> \<forall>c\<in>set b. c = NA \<Longrightarrow>
   calculate_similarity tsr a b = real_of_int (tsr [] []) / 100"
  by (simp add: calculate_similarity_def concat_row_all_missing)

lemma all_missing_never_in_block:
  assumes "1 \<le> k" and "(key, v) \<in> set (get_comparison_groups lower df k)" and "i \<in> set v"
  shows "\<not> (\<forall>c\<in>set (df ! i). c = NA)"
proof
  assume "\<forall>c\<in>set (df ! i). c = NA"
  then have "concat_row (df ! i) = []" by (rule concat_row_all_missing)
  moreover have "k \<le> int (length (concat_row (df ! i)))"
    using assms(2,3) by (rule get_comparison_groups_index(2))
  ultimately show False using assms(1) by simp
qed

end
